theory Spec2Isabelle
  imports
    Main
    "HOL-Library.AList"
    "HOL-Library.Char_ord"
    "HOL-Library.List_Lexorder"
    "HOL-Library.Multiset"
begin

section \<open>Data model of splitter.py\<close>

text \<open>
  Passage names are Python strings. A Python \<open>dict\<close> keeps its keys in insertion order,
  so a dictionary is an association list: \<open>map_of\<close> is \<open>d.get(k)\<close>, \<open>AList.update\<close> is
  \<open>d[k] = v\<close> (an existing key keeps its position, a new key goes to the end) and
  \<open>AList.delete\<close> is \<open>del d[k]\<close>, which the source may only run on a key that is present.
  The inner dictionaries \<open>{link: None, ...}\<close> only carry their keys: they are lists of names.

  Every exception that the source can raise is a value of \<open>error\<close>.
\<close>

datatype error = KeyError | IndexError | ValueError | AssertionError

type_synonym name = string
type_synonym links = "name list"
type_synonym graph = "(name \<times> links) list"

definition keys :: "('k \<times> 'v) list \<Rightarrow> 'k list" where
  "keys d = map fst d"

text \<open>The two properties that the type \<open>dict\<close> of \<open>dict\<close>s guarantees for every input.\<close>

definition wf_graph :: "graph \<Rightarrow> bool" where
  "wf_graph g \<longleftrightarrow> distinct (keys g) \<and> (\<forall>ls \<in> set (map snd g). distinct ls)"

text \<open>Every link target is itself a key: what the graph builder in \<open>order_passages\<close> produces.\<close>

definition closed_graph :: "graph \<Rightarrow> bool" where
  "closed_graph g \<longleftrightarrow> (\<forall>ls \<in> set (map snd g). \<forall>l \<in> set ls. l \<in> set (keys g))"

definition edges :: "graph \<Rightarrow> (name \<times> name) list" where
  "edges g = concat (map (\<lambda>(a, ls). map (Pair a) ls) g)"

section \<open>order_graph\<close>

text \<open>\<open>link_from[link][name] = None\<close>, for every \<open>link\<close> of one \<open>name\<close>.\<close>

definition oset_add :: "name list \<Rightarrow> name \<Rightarrow> name list" where
  "oset_add s x = (if x \<in> set s then s else s @ [x])"

fun add_sources :: "name \<Rightarrow> links \<Rightarrow> graph \<Rightarrow> error + graph" where
  "add_sources nm [] lf = Inr lf"
| "add_sources nm (link # ls) lf =
     (case map_of lf link of
        None \<Rightarrow> Inl KeyError
      | Some srcs \<Rightarrow> add_sources nm ls (AList.update link (oset_add srcs nm) lf))"

fun invert_links :: "graph \<Rightarrow> graph \<Rightarrow> error + graph" where
  "invert_links [] lf = Inr lf"
| "invert_links ((nm, ls) # rest) lf =
     (case add_sources nm ls lf of
        Inl e \<Rightarrow> Inl e
      | Inr lf' \<Rightarrow> invert_links rest lf')"

definition build_link_from :: "graph \<Rightarrow> error + graph" where
  "build_link_from link_to = invert_links link_to (map (\<lambda>nm. (nm, [])) (keys link_to))"

text \<open>
  \<open>ready = [name for name, links in link_from.items() if not links]; ready.reverse()\<close>
\<close>

definition seed_ready :: "graph \<Rightarrow> name list" where
  "seed_ready lf = rev (map fst (filter (\<lambda>(nm, srcs). srcs = []) lf))"

text \<open>\<open>for name in ready: del link_from[name]\<close>\<close>

fun del_all :: "name list \<Rightarrow> graph \<Rightarrow> error + graph" where
  "del_all [] lf = Inr lf"
| "del_all (nm # ns) lf =
     (if nm \<in> set (keys lf) then del_all ns (AList.delete nm lf) else Inl KeyError)"

text \<open>The cycle breakers, in the order in which the source tries them.\<close>

definition cycle_breakers :: "name list" where
  "cycle_breakers =
     [''Makeover Options'',
      ''Rosalind actions'',
      ''Ask Billy what he and Mr. Anderson talked about last night.'',
      ''Go to the arcade.'']"

text \<open>
  The head of the loop body: with an empty stack, the first cycle breaker that is still a
  key of \<open>link_from\<close> becomes the whole stack and loses its entry; \<open>None\<close> is the
  \<open>break\<close> of the \<open>for ... else\<close>.
\<close>

definition refill :: "graph \<Rightarrow> name list \<Rightarrow> (name list \<times> graph) option" where
  "refill lf ready =
     (if ready = [] then
        (case find (\<lambda>nm. nm \<in> set (keys lf)) cycle_breakers of
           None \<Rightarrow> None
         | Some nm \<Rightarrow> Some ([nm], AList.delete nm lf))
      else Some (ready, lf))"

text \<open>
  The inner loop \<open>for link in reversed(link_to[name])\<close>, called on the reversed list.
  \<open>del waiting_on[name]\<close> raises when \<open>name\<close> is not in \<open>waiting_on\<close>; the dictionary
  \<open>waiting_on\<close> is the one stored in \<open>link_from\<close>, so the deletion shows there.
\<close>

fun release :: "name \<Rightarrow> links \<Rightarrow> graph \<Rightarrow> name list \<Rightarrow> error + (graph \<times> name list)" where
  "release nm [] lf ready = Inr (lf, ready)"
| "release nm (link # ls) lf ready =
     (case map_of lf link of
        None \<Rightarrow> release nm ls lf ready
      | Some waiting_on \<Rightarrow>
          if nm \<notin> set waiting_on then Inl KeyError
          else if removeAll nm waiting_on = []
            then release nm ls (AList.delete link lf) (ready @ [link])
            else release nm ls (AList.update link (removeAll nm waiting_on) lf) ready)"

lemma length_delete_less:
  "k \<in> fst ` set d \<Longrightarrow> length (AList.delete k d) < length d"
proof (induction d)
  case Nil
  then show ?case by simp
next
  case (Cons p d)
  show ?case
  proof (cases "fst p = k")
    case True
    then show ?thesis
      using length_delete_le [of k d] by (cases p) (simp add: less_Suc_eq_le)
  next
    case False
    with Cons show ?thesis by (cases p) auto
  qed
qed

lemma length_update_same:
  "k \<in> fst ` set d \<Longrightarrow> length (AList.update k v d) = length d"
  by (induction d) auto

lemma release_size:
  "release nm ls lf ready = Inr (lf', ready') \<Longrightarrow>
     length lf' + length ready' \<le> length lf + length ready"
proof (induction ls arbitrary: lf ready)
  case Nil
  then show ?case by simp
next
  case (Cons link ls)
  show ?case
  proof (cases "map_of lf link")
    case None
    with Cons show ?thesis by simp
  next
    case (Some w)
    then have "link \<in> fst ` set lf"
      by (metis domI dom_map_of_conv_image_fst)
    then have less: "length (AList.delete link lf) < length lf"
      by (rule length_delete_less)
    have same: "length (AList.update link v lf) = length lf" for v
      using \<open>link \<in> fst ` set lf\<close> by (rule length_update_same)
    from Cons.prems Some show ?thesis
      using Cons.IH [of "AList.delete link lf" "ready @ [link]"]
            Cons.IH [of "AList.update link (removeAll nm w) lf" ready] less same
      by (auto split: if_splits)
  qed
qed

lemma refill_size:
  "refill lf ready = Some (ready1, lf1) \<Longrightarrow>
     ready1 \<noteq> [] \<and> length lf1 + length ready1 \<le> length lf + length ready"
proof (cases "ready = []")
  case False
  assume "refill lf ready = Some (ready1, lf1)"
  with False show ?thesis by (simp add: refill_def)
next
  case True
  assume r: "refill lf ready = Some (ready1, lf1)"
  then obtain nm where f: "find (\<lambda>nm. nm \<in> set (keys lf)) cycle_breakers = Some nm"
    and eq: "ready1 = [nm]" "lf1 = AList.delete nm lf"
    using True by (auto simp: refill_def split: option.splits)
  from f have "nm \<in> fst ` set lf"
    by (auto simp: find_Some_iff keys_def)
  then have "length (AList.delete nm lf) < length lf"
    by (rule length_delete_less)
  with eq True show ?thesis by simp
qed

text \<open>
  \<open>while True\<close>: refill or stop, \<open>name = ready.pop()\<close>, \<open>ordered_names.append(name)\<close>,
  then the inner loop over \<open>link_to[name]\<close>. The result is the pair of \<open>ordered_names\<close>
  and \<open>link_from\<close> at the \<open>break\<close>.
\<close>

function order_loop ::
  "graph \<Rightarrow> graph \<Rightarrow> name list \<Rightarrow> name list \<Rightarrow> error + (name list \<times> graph)" where
  "order_loop link_to lf ready ordered =
     (case refill lf ready of
        None \<Rightarrow> Inr (ordered, lf)
      | Some (ready1, lf1) \<Rightarrow>
          (case map_of link_to (last ready1) of
             None \<Rightarrow> Inl KeyError
           | Some ls \<Rightarrow>
               (case release (last ready1) (rev ls) lf1 (butlast ready1) of
                  Inl e \<Rightarrow> Inl e
                | Inr (lf2, ready2) \<Rightarrow>
                    order_loop link_to lf2 ready2 (ordered @ [last ready1]))))"
  by pat_completeness auto
termination
proof (relation "measure (\<lambda>(link_to, lf, ready, ordered). length lf + length ready)")
  show "wf (measure (\<lambda>(link_to, lf, ready, ordered). length lf + length ready))"
    by simp
next
  fix link_to lf :: graph and ready ordered :: "name list"
    and x2 :: "name list \<times> graph" and ready1 lf1 ls x2b lf2 ready2
  assume r: "refill lf ready = Some x2" "(ready1, lf1) = x2"
    and "map_of link_to (last ready1) = Some ls"
    and rel: "release (last ready1) (rev ls) lf1 (butlast ready1) = Inr x2b"
      "(lf2, ready2) = x2b"
  from r have "ready1 \<noteq> []"
    and a: "length lf1 + length ready1 \<le> length lf + length ready"
    using refill_size [of lf ready ready1 lf1] by auto
  from rel have "length lf2 + length ready2 \<le> length lf1 + length (butlast ready1)"
    using release_size [of "last ready1" "rev ls" lf1 "butlast ready1" lf2 ready2] by auto
  with a \<open>ready1 \<noteq> []\<close>
  show "((link_to, lf2, ready2, ordered @ [last ready1]), (link_to, lf, ready, ordered))
          \<in> measure (\<lambda>(link_to, lf, ready, ordered). length lf + length ready)"
    by (cases ready1 rule: rev_cases) auto
qed

text \<open>
  The whole function; after the loop, \<open>if link_from: ordered_names += sorted(link_from)\<close>.
\<close>

definition order_graph :: "graph \<Rightarrow> error + name list" where
  "order_graph link_to =
     (case build_link_from link_to of
        Inl e \<Rightarrow> Inl e
      | Inr lf0 \<Rightarrow>
          (case del_all (seed_ready lf0) lf0 of
             Inl e \<Rightarrow> Inl e
           | Inr lf \<Rightarrow>
               (case order_loop link_to lf (seed_ready lf0) [] of
                  Inl e \<Rightarrow> Inl e
                | Inr (ordered, lf') \<Rightarrow>
                    Inr (if lf' \<noteq> [] then ordered @ sort (keys lf') else ordered))))"

section \<open>Auxiliary notions for the proofs about order_graph\<close>

text \<open>The sources of the links into a node, and the invariant of the main loop.\<close>

definition preds :: "graph \<Rightarrow> name \<Rightarrow> name set" where
  "preds g l = {n. (n, l) \<in> set (edges g)}"

definition loop_inv :: "graph \<Rightarrow> graph \<Rightarrow> name list \<Rightarrow> name list \<Rightarrow> bool" where
  "loop_inv g lf ready ordered \<longleftrightarrow>
     distinct (keys lf @ ready @ ordered)
     \<and> set (keys lf @ ready @ ordered) = set (keys g)
     \<and> (\<forall>l w. map_of lf l = Some w \<longrightarrow> preds g l - set ordered \<subseteq> set w)"


text \<open>The invariant of the main loop on an acyclic graph.\<close>

definition topo_inv :: "graph \<Rightarrow> graph \<Rightarrow> name list \<Rightarrow> name list \<Rightarrow> bool" where
  "topo_inv g lf ready ordered \<longleftrightarrow>
     loop_inv g lf ready ordered
     \<and> (\<forall>l w. map_of lf l = Some w \<longrightarrow> w \<noteq> [] \<and> set w \<subseteq> preds g l - set ordered)
     \<and> (\<forall>a b. (a, b) \<in> set (edges g) \<and> b \<in> set ready \<longrightarrow> a \<in> set ordered)
     \<and> (\<forall>a b. (a, b) \<in> set (edges g) \<and> b \<in> set ordered
           \<longrightarrow> (\<exists>pre mid post. ordered = pre @ a # mid @ b # post))"


section \<open>subgraph\<close>

text \<open>
  \<open>filter_links\<close>: the links of a node without the ones named in \<open>limits\<close>. The
  argument is a dictionary of the graph, so its keys are already without repetition.
\<close>

definition filter_links :: "name list \<Rightarrow> links \<Rightarrow> links" where
  "filter_links limits ls = filter (\<lambda>link. link \<notin> set limits) ls"

text \<open>
  \<open>remaining = {name: filter_links(graph[name]) for name in starts}\<close>; \<open>graph[name]\<close>
  raises for a name that is not a key.
\<close>

fun init_remaining :: "graph \<Rightarrow> name list \<Rightarrow> name list \<Rightarrow> graph \<Rightarrow> error + graph" where
  "init_remaining graph limits [] remaining = Inr remaining"
| "init_remaining graph limits (nm # starts) remaining =
     (case map_of graph nm of
        None \<Rightarrow> Inl KeyError
      | Some ls \<Rightarrow>
          init_remaining graph limits starts (AList.update nm (filter_links limits ls) remaining))"

text \<open>
  \<open>for link in links: if link not in reached: remaining[link] = filter_links(graph[link])\<close>
\<close>

fun discover :: "graph \<Rightarrow> name list \<Rightarrow> graph \<Rightarrow> links \<Rightarrow> graph \<Rightarrow> error + graph" where
  "discover graph limits reached [] remaining = Inr remaining"
| "discover graph limits reached (link # ls) remaining =
     (if link \<in> set (keys reached) then discover graph limits reached ls remaining
      else
        (case map_of graph link of
           None \<Rightarrow> Inl KeyError
         | Some ls' \<Rightarrow>
             discover graph limits reached ls
               (AList.update link (filter_links limits ls') remaining)))"

lemma filter_update_out:
  "k \<notin> R \<Longrightarrow> length (filter (\<lambda>p. fst p \<in> R) (AList.update k v d))
     = length (filter (\<lambda>p. fst p \<in> R) d)"
  by (induction d) auto

lemma filter_delete_le:
  "length (filter P (AList.delete k d)) \<le> length (filter P d)"
  by (induction d) (auto simp: le_SucI)

lemma filter_delete_less:
  "k \<in> R \<Longrightarrow> k \<in> fst ` set d \<Longrightarrow>
     length (filter (\<lambda>p. fst p \<in> R) (AList.delete k d)) < length (filter (\<lambda>p. fst p \<in> R) d)"
proof (induction d)
  case Nil
  then show ?case by simp
next
  case (Cons p d)
  show ?case
  proof (cases "fst p = k")
    case True
    with Cons.prems(1) show ?thesis
      using filter_delete_le [of "\<lambda>p. fst p \<in> R" k d]
      by (cases p) (simp add: less_Suc_eq_le)
  next
    case False
    with Cons show ?thesis by (cases p) auto
  qed
qed

lemma discover_measure:
  "discover graph limits reached ls remaining = Inr remaining' \<Longrightarrow>
     set (keys remaining') \<subseteq> set (keys remaining) \<union> set (keys graph)
     \<and> length (filter (\<lambda>p. fst p \<in> set (keys reached)) remaining')
         = length (filter (\<lambda>p. fst p \<in> set (keys reached)) remaining)"
proof (induction ls arbitrary: remaining)
  case Nil
  then show ?case by auto
next
  case (Cons link ls)
  show ?case
  proof (cases "link \<in> set (keys reached)")
    case True
    with Cons show ?thesis by simp
  next
    case False
    with Cons.prems obtain ls' where g: "map_of graph link = Some ls'"
      and d: "discover graph limits reached ls
               (AList.update link (filter_links limits ls') remaining) = Inr remaining'"
      by (auto split: option.splits)
    from g have "link \<in> set (keys graph)"
      unfolding keys_def by (metis domI dom_map_of_conv_image_fst set_map)
    moreover have "set (keys (AList.update link v remaining)) \<subseteq> insert link (set (keys remaining))" for v
      unfolding keys_def by (auto simp: dom_update)
    ultimately show ?thesis
      using Cons.IH [OF d] filter_update_out [OF False] by fastforce
  qed
qed

text \<open>
  What decreases in the loop below: the number of names not yet in \<open>reached\<close> and,
  when that stays the same, the number of items of \<open>remaining\<close> that are in \<open>reached\<close>.
\<close>

definition subgraph_rank :: "graph \<times> name list \<times> graph \<times> graph \<Rightarrow> nat \<times> nat" where
  "subgraph_rank =
     (\<lambda>(graph, limits, remaining, reached).
       (card ((set (keys graph) \<union> set (keys remaining)) - set (keys reached)),
        length (filter (\<lambda>p. fst p \<in> set (keys reached)) remaining)))"

text \<open>
  \<open>while remaining\<close>: the first item of \<open>remaining\<close> moves to \<open>reached\<close>, and its links
  that are not yet in \<open>reached\<close> are put into \<open>remaining\<close>.
\<close>

function subgraph_loop :: "graph \<Rightarrow> name list \<Rightarrow> graph \<Rightarrow> graph \<Rightarrow> error + graph" where
  "subgraph_loop graph limits remaining reached =
     (case remaining of
        [] \<Rightarrow> Inr reached
      | (nm, ls) # _ \<Rightarrow>
          (case discover graph limits (AList.update nm ls reached) ls
                  (AList.delete nm remaining) of
             Inl e \<Rightarrow> Inl e
           | Inr remaining' \<Rightarrow>
               subgraph_loop graph limits remaining' (AList.update nm ls reached)))"
  by pat_completeness auto
termination
proof (relation "inv_image (less_than <*lex*> less_than)
    subgraph_rank")
  show "wf (inv_image (less_than <*lex*> less_than)
    subgraph_rank)"
    by (intro wf_inv_image wf_lex_prod wf_less_than)
next
  fix graph :: graph and limits :: "name list" and remaining reached :: graph
    and a :: "name \<times> links" and rest nm ls remaining'
  assume rem: "remaining = a # rest" and a: "(nm, ls) = a"
    and d: "discover graph limits (AList.update nm ls reached) ls
                  (AList.delete nm remaining) = Inr remaining'"
  let ?reached = "AList.update nm ls reached"
  let ?A = "(set (keys graph) \<union> set (keys remaining)) - set (keys reached)"
  let ?A' = "(set (keys graph) \<union> set (keys remaining')) - set (keys ?reached)"
  have nmrem: "nm \<in> set (keys remaining)" using rem a by (auto simp: keys_def)
  have kr: "set (keys ?reached) = insert nm (set (keys reached))"
    unfolding keys_def by (auto simp: dom_update)
  from discover_measure [OF d]
  have k': "set (keys remaining') \<subseteq> set (keys (AList.delete nm remaining)) \<union> set (keys graph)"
    and l': "length (filter (\<lambda>p. fst p \<in> set (keys ?reached)) remaining')
         = length (filter (\<lambda>p. fst p \<in> set (keys ?reached)) (AList.delete nm remaining))"
    by auto
  have kd: "set (keys (AList.delete nm remaining)) = set (keys remaining) - {nm}"
    unfolding keys_def by (simp add: delete_keys)
  have sub: "?A' \<subseteq> ?A - {nm}" using k' kd kr by auto
  have fin: "finite ?A" by simp
  show "((graph, limits, remaining', ?reached), (graph, limits, remaining, reached))
      \<in> inv_image (less_than <*lex*> less_than)
    subgraph_rank"
  proof (cases "nm \<in> set (keys reached)")
    case False
    with nmrem have "nm \<in> ?A" by simp
    with sub have "?A' \<subset> ?A" by auto
    with fin have "card ?A' < card ?A" by (rule psubset_card_mono)
    then show ?thesis by (simp add: subgraph_rank_def)
  next
    case True
    from sub fin have le: "card ?A' \<le> card ?A"
      by (meson Diff_subset card_mono subset_trans)
    from True kr have same: "set (keys ?reached) = set (keys reached)" by auto
    have "nm \<in> fst ` set remaining" using nmrem by (simp add: keys_def)
    with True
    have "length (filter (\<lambda>p. fst p \<in> set (keys reached)) (AList.delete nm remaining))
        < length (filter (\<lambda>p. fst p \<in> set (keys reached)) remaining)"
      by (rule filter_delete_less)
    with l' same have "length (filter (\<lambda>p. fst p \<in> set (keys ?reached)) remaining')
        < length (filter (\<lambda>p. fst p \<in> set (keys reached)) remaining)" by simp
    with le show ?thesis by (auto simp: subgraph_rank_def)
  qed
qed

definition subgraph :: "graph \<Rightarrow> name list \<Rightarrow> name list \<Rightarrow> error + graph" where
  "subgraph graph starts limits =
     (case init_remaining graph limits starts [] of
        Inl e \<Rightarrow> Inl e
      | Inr remaining \<Rightarrow> subgraph_loop graph limits remaining [])"

text \<open>The invariant of the loop of \<open>subgraph\<close>.\<close>

definition sub_inv :: "graph \<Rightarrow> name list \<Rightarrow> name list \<Rightarrow> graph \<Rightarrow> graph \<Rightarrow> bool" where
  "sub_inv g starts limits remaining reached \<longleftrightarrow>
     (\<forall>n ls l. (n, ls) \<in> set reached \<and> l \<in> set ls
         \<longrightarrow> l \<in> set (keys reached) \<union> set (keys remaining))
     \<and> (\<forall>n ls. (n, ls) \<in> set remaining \<union> set reached
         \<longrightarrow> (\<exists>full. map_of g n = Some full \<and> ls = filter_links limits full))
     \<and> (\<forall>n. n \<in> set (keys remaining) \<union> set (keys reached) \<and> n \<in> set limits
         \<longrightarrow> n \<in> set starts)
     \<and> set starts \<subseteq> set (keys remaining) \<union> set (keys reached)"


section \<open>Link extraction\<close>

text \<open>
  A Python string is a list of characters; a character is a \<open>char\<close>, a code point
  below 256. \<open>s.find(sub, start)\<close> is the position of the first occurrence of \<open>sub\<close>
  at or after \<open>start\<close>, \<open>None\<close> where Python returns \<open>-1\<close>; \<open>s[i:j]\<close> is \<open>slice s i j\<close>.
\<close>

fun find_sub :: "string \<Rightarrow> string \<Rightarrow> nat option" where
  "find_sub sub [] = (if sub = [] then Some 0 else None)"
| "find_sub sub (c # cs) =
     (if take (length sub) (c # cs) = sub then Some 0
      else map_option Suc (find_sub sub cs))"

definition str_find :: "string \<Rightarrow> string \<Rightarrow> nat \<Rightarrow> nat option" where
  "str_find s sub start =
     (if start \<le> length s then map_option (\<lambda>i. start + i) (find_sub sub (drop start s))
      else None)"

definition slice :: "string \<Rightarrow> nat \<Rightarrow> nat \<Rightarrow> string" where
  "slice s i j = take (j - i) (drop i s)"

definition startswith :: "string \<Rightarrow> string \<Rightarrow> bool" where
  "startswith s p \<longleftrightarrow> take (length p) s = p"

definition endswith :: "string \<Rightarrow> string \<Rightarrow> bool" where
  "endswith s p \<longleftrightarrow> length p \<le> length s \<and> drop (length s - length p) s = p"

lemma find_sub_bounds:
  "find_sub sub s = Some i \<Longrightarrow> i + length sub \<le> length s"
proof (induction s arbitrary: i)
  case Nil
  then show ?case by (simp split: if_splits)
next
  case (Cons c cs)
  show ?case
  proof (cases "take (length sub) (c # cs) = sub")
    case True
    then have "length (take (length sub) (c # cs)) = length sub" by simp
    then have "length sub \<le> length (c # cs)" by (simp add: min_def split: if_splits)
    with True Cons.prems show ?thesis by simp
  next
    case False
    with Cons.prems obtain j where "find_sub sub cs = Some j" "i = Suc j" by auto
    with Cons.IH show ?thesis by simp
  qed
qed

lemma str_find_bounds:
  "str_find s sub start = Some i \<Longrightarrow> start \<le> i \<and> i + length sub \<le> length s"
  using find_sub_bounds [of sub "drop start s"]
  by (auto simp: str_find_def split: if_splits)

text \<open>
  \<open>split_body\<close>, from position \<open>pos\<close> on: the segments it yields, and what it prints.
\<close>

function split_body_from :: "string \<Rightarrow> nat \<Rightarrow> string list \<times> string list" where
  "split_body_from body pos =
     (if pos < length body then
        (case str_find body ''<<'' pos of
           None \<Rightarrow> ([drop pos body], [])
         | Some start \<Rightarrow>
             (case str_find body ''>>'' start of
                None \<Rightarrow>
                  ((if pos < start then [slice body pos start] else []),
                   [''incomplete macro: '' @ drop start body])
              | Some end \<Rightarrow>
                  (let (segs, reports) = split_body_from body (end + 2)
                   in ((if pos < start then [slice body pos start] else [])
                         @ slice body start (end + 2) # segs, reports))))
      else ([], []))"
  by pat_completeness auto
termination
proof (relation "measure (\<lambda>(body, pos). length body - pos)")
  show "wf (measure (\<lambda>(body, pos). length body - pos))" by simp
next
  fix body :: string and pos start e :: nat
  assume "pos < length body" "str_find body ''<<'' pos = Some start"
    "str_find body ''>>'' start = Some e"
  then have "pos \<le> start" "start \<le> e"
    using str_find_bounds by blast+
  with \<open>pos < length body\<close>
  show "((body, e + 2), (body, pos)) \<in> measure (\<lambda>(body, pos). length body - pos)"
    by simp
qed

definition split_body :: "string \<Rightarrow> string list \<times> string list" where
  "split_body body = split_body_from body 0"

text \<open>\<open>find_links_in_text\<close>, from position \<open>pos\<close> on: the links, and what it prints.\<close>

definition link_target :: "string \<Rightarrow> string" where
  "link_target link =
     (case str_find link ''|'' 0 of
        None \<Rightarrow> link
      | Some sep \<Rightarrow> drop (sep + 1) link)"

function find_links_from :: "string \<Rightarrow> nat \<Rightarrow> string list \<times> string list" where
  "find_links_from text pos =
     (case str_find text ''[['' pos of
        None \<Rightarrow> ([], [])
      | Some start \<Rightarrow>
          (case str_find text '']]'' start of
             None \<Rightarrow> ([], [''incomplete link: '' @ drop start text])
           | Some end \<Rightarrow>
               (let (links, reports) = find_links_from text (end + 2)
                in (link_target (slice text (start + 2) end) # links, reports))))"
  by pat_completeness auto
termination
proof (relation "measure (\<lambda>(text, pos). length text - pos)")
  show "wf (measure (\<lambda>(text, pos). length text - pos))" by simp
next
  fix str :: string and pos start e :: nat
  assume "str_find str ''[['' pos = Some start" "str_find str '']]'' start = Some e"
  then have "pos \<le> start" "start + 2 \<le> length str" "start \<le> e"
    using str_find_bounds [of str "''[[''" pos start] str_find_bounds [of str "'']]''" start e]
    by auto
  then show "((str, e + 2), (str, pos)) \<in> measure (\<lambda>(text, pos). length text - pos)"
    by simp
qed

definition find_links_in_text :: "string \<Rightarrow> string list \<times> string list" where
  "find_links_in_text text = find_links_from text 0"

text \<open>
  \<open>re_macro_arg.findall\<close>. The three alternatives of the pattern start with different
  characters, so at most one of them can match at a position; where none matches, the
  search moves on by one character. \<open>\s\<close> is the white space of Python's \<open>str\<close>
  patterns, here for code points below 256.
\<close>

definition is_space :: "char \<Rightarrow> bool" where
  "is_space c \<longleftrightarrow>
     (let n = (of_char c :: nat)
      in (9 \<le> n \<and> n \<le> 13) \<or> (28 \<le> n \<and> n \<le> 32) \<or> n = 133 \<or> n = 160)"

definition is_plain :: "char \<Rightarrow> bool" where
  "is_plain c \<longleftrightarrow> c \<noteq> CHR 0x22 \<and> c \<noteq> CHR ''['' \<and> \<not> is_space c"

function re_macro_arg_findall :: "string \<Rightarrow> string list" where
  "re_macro_arg_findall [] = []"
| "re_macro_arg_findall (c # cs) =
     (if is_plain c then
        takeWhile is_plain (c # cs) # re_macro_arg_findall (dropWhile is_plain (c # cs))
      else if c = CHR 0x22 \<and> CHR 0x22 \<in> set cs then
        (c # takeWhile (\<lambda>x. x \<noteq> CHR 0x22) cs @ [CHR 0x22])
          # re_macro_arg_findall (tl (dropWhile (\<lambda>x. x \<noteq> CHR 0x22) cs))
      else if c = CHR ''['' \<and> startswith cs ''[''
              \<and> startswith (dropWhile (\<lambda>x. x \<noteq> CHR '']'') (tl cs)) '']]'' then
        (''[['' @ takeWhile (\<lambda>x. x \<noteq> CHR '']'') (tl cs) @ '']]'')
          # re_macro_arg_findall (drop 2 (dropWhile (\<lambda>x. x \<noteq> CHR '']'') (tl cs)))
      else re_macro_arg_findall cs)"
  by pat_completeness auto
termination
proof (relation "measure length")
  show "wf (measure length)" by simp
next
  fix c :: char and cs :: string
  assume "is_plain c"
  then have "dropWhile is_plain (c # cs) = dropWhile is_plain cs" by simp
  then show "(dropWhile is_plain (c # cs), c # cs) \<in> measure length"
    by (simp add: length_dropWhile_le less_Suc_eq_le)
next
  fix c :: char and cs :: string
  have "length (tl (dropWhile (\<lambda>x. x \<noteq> CHR 0x22) cs)) \<le> length cs"
    by (metis diff_le_self le_trans length_dropWhile_le length_tl)
  then show "(tl (dropWhile (\<lambda>x. x \<noteq> CHR 0x22) cs), c # cs) \<in> measure length"
    by simp
next
  fix c :: char and cs :: string
  have "length (drop 2 (dropWhile (\<lambda>x. x \<noteq> CHR '']'') (tl cs))) \<le> length cs"
    by (metis diff_le_self le_trans length_drop length_dropWhile_le length_tl)
  then show "(drop 2 (dropWhile (\<lambda>x. x \<noteq> CHR '']'') (tl cs)), c # cs) \<in> measure length"
    by simp
next
  fix c :: char and cs :: string
  show "(cs, c # cs) \<in> measure length" by simp
qed

text \<open>
  \<open>find_links_in_macro\<close>. The two \<open>assert\<close>s on the macro, \<open>name, *args = ...\<close>
  (a \<open>ValueError\<close> without a token), \<open>args[0]\<close> (an \<open>IndexError\<close> without an
  argument) and the \<open>assert\<close>s on the target are the ways in which it raises.
\<close>

definition unquote :: "string \<Rightarrow> error + string" where
  "unquote link =
     (case link of
        [] \<Rightarrow> Inl IndexError
      | c # _ \<Rightarrow>
          if c \<noteq> CHR 0x22 then Inl AssertionError
          else if last link \<noteq> CHR 0x22 then Inl AssertionError
          else Inr (slice link 1 (length link - 1)))"

definition find_links_in_macro :: "string \<Rightarrow> error + string list \<times> string list" where
  "find_links_in_macro macro =
     (if \<not> startswith macro ''<<'' then Inl AssertionError
      else if \<not> endswith macro ''>>'' then Inl AssertionError
      else
        (case re_macro_arg_findall (slice macro 2 (length macro - 2)) of
           [] \<Rightarrow> Inl ValueError
         | nm # args \<Rightarrow>
             if nm = ''display'' then
               (case args of
                  [] \<Rightarrow> Inl IndexError
                | a # _ \<Rightarrow>
                    (case unquote a of Inl e \<Rightarrow> Inl e | Inr t \<Rightarrow> Inr ([t], [])))
             else if nm = ''click'' then
               (case args of
                  [] \<Rightarrow> Inl IndexError
                | a # _ \<Rightarrow>
                    (case a of
                       [] \<Rightarrow> Inl IndexError
                     | c # _ \<Rightarrow>
                         if c = CHR ''['' then Inr (find_links_in_text a)
                         else if length args = 1 \<or> length args = 2 then
                           (case unquote (last args) of
                              Inl e \<Rightarrow> Inl e
                            | Inr t \<Rightarrow> Inr ([t], []))
                         else Inl AssertionError))
             else Inr ([], [])))"

text \<open>
  \<open>find_links\<close>: the lines joined by newlines, cut into segments, each segment read as
  a macro or as text. The first exception ends the run.
\<close>

fun join_lines :: "string list \<Rightarrow> string" where
  "join_lines [] = []"
| "join_lines [l] = l"
| "join_lines (l # ls) = l @ CHR 0x0A # join_lines ls"

fun links_of_segments :: "string list \<Rightarrow> error + string list \<times> string list" where
  "links_of_segments [] = Inr ([], [])"
| "links_of_segments (seg # segs) =
     (case (if startswith seg ''<<'' then find_links_in_macro seg
            else Inr (find_links_in_text seg)) of
        Inl e \<Rightarrow> Inl e
      | Inr (links, reports) \<Rightarrow>
          (case links_of_segments segs of
             Inl e \<Rightarrow> Inl e
           | Inr (links', reports') \<Rightarrow> Inr (links @ links', reports @ reports')))"

definition find_links :: "string list \<Rightarrow> error + string list \<times> string list" where
  "find_links body =
     (case split_body (join_lines body) of
        (segs, reports) \<Rightarrow>
          (case links_of_segments segs of
             Inl e \<Rightarrow> Inl e
           | Inr (links, reports') \<Rightarrow> Inr (links, reports' @ reports)))"

text \<open>A quoted string, as the two \<open>assert\<close>s on a target test it.\<close>

definition is_quoted :: "string \<Rightarrow> bool" where
  "is_quoted t \<longleftrightarrow> t \<noteq> [] \<and> hd t = CHR 0x22 \<and> last t = CHR 0x22"


text \<open>
  An opener at position \<open>i\<close> of \<open>s\<close> with no closer at or after it.
\<close>

definition unterminated_at :: "string \<Rightarrow> string \<Rightarrow> string \<Rightarrow> nat \<Rightarrow> bool" where
  "unterminated_at opener closer s i \<longleftrightarrow>
     startswith (drop i s) opener \<and> str_find s closer i = None"


section \<open>Lemmas about order_graph\<close>

lemma map_of_Some_key: "map_of d k = Some v \<Longrightarrow> k \<in> set (keys d)"
  unfolding keys_def by (metis domI dom_map_of_conv_image_fst set_map)

lemma key_map_of_Some: "k \<in> set (keys d) \<Longrightarrow> \<exists>v. map_of d k = Some v"
  unfolding keys_def by (metis domD dom_map_of_conv_image_fst set_map)

lemma keys_delete: "keys (AList.delete k d) = removeAll k (keys d)"
  unfolding keys_def by (rule delete_keys)

lemma keys_update_in: "k \<in> set (keys d) \<Longrightarrow> keys (AList.update k v d) = keys d"
  unfolding keys_def by (simp add: update_keys)

lemma release_spec:
  assumes "distinct (keys lf)" "distinct ls"
    and "\<forall>link \<in> set ls. \<forall>w. map_of lf link = Some w \<longrightarrow> nm \<in> set w"
  shows "\<exists>lf' new. release nm ls lf ready = Inr (lf', ready @ new)
      \<and> distinct (keys lf') \<and> distinct new
      \<and> set new \<subseteq> set ls \<inter> set (keys lf)
      \<and> set (keys lf') = set (keys lf) - set new
      \<and> (\<forall>l \<in> set new. \<exists>w. map_of lf l = Some w \<and> removeAll nm w = [])
      \<and> (\<forall>l w'. map_of lf' l = Some w' \<longrightarrow>
            (\<exists>w. map_of lf l = Some w
               \<and> w' = (if l \<in> set ls then removeAll nm w else w)
               \<and> (l \<in> set ls \<longrightarrow> w' \<noteq> [])))"
  using assms
proof (induction ls arbitrary: lf ready)
  case Nil
  then show ?case by simp
next
  case (Cons link ls)
  from Cons.prems have dls: "distinct ls" and notin: "link \<notin> set ls" by auto
  show ?case
  proof (cases "map_of lf link")
    case None
    from Cons.prems have "\<forall>l \<in> set ls. \<forall>w. map_of lf l = Some w \<longrightarrow> nm \<in> set w" by auto
    from Cons.IH [OF Cons.prems(1) dls this, of ready]
    obtain lf' new where r: "release nm ls lf ready = Inr (lf', ready @ new)"
      and p: "distinct (keys lf')" "distinct new" "set new \<subseteq> set ls \<inter> set (keys lf)"
        "set (keys lf') = set (keys lf) - set new"
        "\<forall>l \<in> set new. \<exists>w. map_of lf l = Some w \<and> removeAll nm w = []"
        "\<forall>l w'. map_of lf' l = Some w' \<longrightarrow>
            (\<exists>w. map_of lf l = Some w
               \<and> w' = (if l \<in> set ls then removeAll nm w else w)
               \<and> (l \<in> set ls \<longrightarrow> w' \<noteq> []))"
      by blast
    have "release nm (link # ls) lf ready = Inr (lf', ready @ new)"
      using None r by simp
    moreover have "set new \<subseteq> set (link # ls) \<inter> set (keys lf)" using p(3) by auto
    moreover have "\<forall>l w'. map_of lf' l = Some w' \<longrightarrow>
            (\<exists>w. map_of lf l = Some w
               \<and> w' = (if l \<in> set (link # ls) then removeAll nm w else w)
               \<and> (l \<in> set (link # ls) \<longrightarrow> w' \<noteq> []))"
      using p(6) None by fastforce
    ultimately show ?thesis using p by blast
  next
    case (Some w0)
    with Cons.prems have nmw: "nm \<in> set w0" by auto
    have linkkey: "link \<in> set (keys lf)" using Some by (rule map_of_Some_key)
    show ?thesis
    proof (cases "removeAll nm w0 = []")
      case True
      let ?lfA = "AList.delete link lf"
      have dA: "distinct (keys ?lfA)"
        using Cons.prems(1) by (simp add: keys_delete distinct_removeAll)
      have preA: "\<forall>l \<in> set ls. \<forall>w. map_of ?lfA l = Some w \<longrightarrow> nm \<in> set w"
        using Cons.prems(3) notin by (auto simp: delete_conv')
      from Cons.IH [OF dA dls preA, of "ready @ [link]"]
      obtain lf' new where r: "release nm ls ?lfA (ready @ [link]) = Inr (lf', (ready @ [link]) @ new)"
        and p: "distinct (keys lf')" "distinct new" "set new \<subseteq> set ls \<inter> set (keys ?lfA)"
          "set (keys lf') = set (keys ?lfA) - set new"
          "\<forall>l \<in> set new. \<exists>w. map_of ?lfA l = Some w \<and> removeAll nm w = []"
          "\<forall>l w'. map_of lf' l = Some w' \<longrightarrow>
              (\<exists>w. map_of ?lfA l = Some w
                 \<and> w' = (if l \<in> set ls then removeAll nm w else w)
                 \<and> (l \<in> set ls \<longrightarrow> w' \<noteq> []))"
        by blast
      have kA: "set (keys ?lfA) = set (keys lf) - {link}" by (simp add: keys_delete)
      have 1: "release nm (link # ls) lf ready = Inr (lf', ready @ (link # new))"
        using Some nmw True r by simp
      have 2: "distinct (link # new)" using p(2,3) kA by auto
      have 3: "set (link # new) \<subseteq> set (link # ls) \<inter> set (keys lf)"
        using p(3) kA linkkey by auto
      have 4: "set (keys lf') = set (keys lf) - set (link # new)"
        using p(4) kA by auto
      have 5: "\<forall>l \<in> set (link # new). \<exists>w. map_of lf l = Some w \<and> removeAll nm w = []"
        using p(5) Some True by (auto simp: delete_conv' split: if_splits)
      have 6: "\<forall>l w'. map_of lf' l = Some w' \<longrightarrow>
              (\<exists>w. map_of lf l = Some w
                 \<and> w' = (if l \<in> set (link # ls) then removeAll nm w else w)
                 \<and> (l \<in> set (link # ls) \<longrightarrow> w' \<noteq> []))"
      proof (intro allI impI)
        fix l w' assume m: "map_of lf' l = Some w'"
        with p(6) obtain w where w: "map_of ?lfA l = Some w"
          "w' = (if l \<in> set ls then removeAll nm w else w)" "l \<in> set ls \<longrightarrow> w' \<noteq> []"
          by blast
        from w(1) have "l \<noteq> link" "map_of lf l = Some w"
          by (auto simp: delete_conv' split: if_splits)
        with w show "\<exists>w. map_of lf l = Some w
                 \<and> w' = (if l \<in> set (link # ls) then removeAll nm w else w)
                 \<and> (l \<in> set (link # ls) \<longrightarrow> w' \<noteq> [])" by auto
      qed
      from 1 2 3 4 5 6 p(1) show ?thesis by blast
    next
      case False
      let ?lfB = "AList.update link (removeAll nm w0) lf"
      have kB: "keys ?lfB = keys lf" using linkkey by (rule keys_update_in)
      have dB: "distinct (keys ?lfB)" using Cons.prems(1) kB by simp
      have preB: "\<forall>l \<in> set ls. \<forall>w. map_of ?lfB l = Some w \<longrightarrow> nm \<in> set w"
        using Cons.prems(3) notin by (auto simp: update_conv')
      from Cons.IH [OF dB dls preB, of ready]
      obtain lf' new where r: "release nm ls ?lfB ready = Inr (lf', ready @ new)"
        and p: "distinct (keys lf')" "distinct new" "set new \<subseteq> set ls \<inter> set (keys ?lfB)"
          "set (keys lf') = set (keys ?lfB) - set new"
          "\<forall>l \<in> set new. \<exists>w. map_of ?lfB l = Some w \<and> removeAll nm w = []"
          "\<forall>l w'. map_of lf' l = Some w' \<longrightarrow>
              (\<exists>w. map_of ?lfB l = Some w
                 \<and> w' = (if l \<in> set ls then removeAll nm w else w)
                 \<and> (l \<in> set ls \<longrightarrow> w' \<noteq> []))"
        by blast
      have 1: "release nm (link # ls) lf ready = Inr (lf', ready @ new)"
        using Some nmw False r by simp
      have 3: "set new \<subseteq> set (link # ls) \<inter> set (keys lf)"
        using p(3) kB by auto
      have 4: "set (keys lf') = set (keys lf) - set new"
        using p(4) kB by auto
      have 5: "\<forall>l \<in> set new. \<exists>w. map_of lf l = Some w \<and> removeAll nm w = []"
      proof
        fix l assume "l \<in> set new"
        with p(3,5) notin have "l \<noteq> link" "\<exists>w. map_of ?lfB l = Some w \<and> removeAll nm w = []" by auto
        then show "\<exists>w. map_of lf l = Some w \<and> removeAll nm w = []"
          by (simp add: update_conv')
      qed
      have 6: "\<forall>l w'. map_of lf' l = Some w' \<longrightarrow>
              (\<exists>w. map_of lf l = Some w
                 \<and> w' = (if l \<in> set (link # ls) then removeAll nm w else w)
                 \<and> (l \<in> set (link # ls) \<longrightarrow> w' \<noteq> []))"
      proof (intro allI impI)
        fix l w' assume m: "map_of lf' l = Some w'"
        with p(6) obtain w where w: "map_of ?lfB l = Some w"
          "w' = (if l \<in> set ls then removeAll nm w else w)" "l \<in> set ls \<longrightarrow> w' \<noteq> []"
          by blast
        show "\<exists>w. map_of lf l = Some w
                 \<and> w' = (if l \<in> set (link # ls) then removeAll nm w else w)
                 \<and> (l \<in> set (link # ls) \<longrightarrow> w' \<noteq> [])"
        proof (cases "l = link")
          case True
          with w notin False Some show ?thesis by (auto simp: update_conv')
        next
          case False
          with w show ?thesis by (auto simp: update_conv')
        qed
      qed
      from 1 3 4 5 6 p(1,2) show ?thesis by blast
    qed
  qed
qed


lemma edges_Cons: "set (edges ((a, ls) # g)) = Pair a ` set ls \<union> set (edges g)"
  by (simp add: edges_def)

lemma edges_iff: "(a, b) \<in> set (edges g) \<longleftrightarrow> (\<exists>ls. (a, ls) \<in> set g \<and> b \<in> set ls)"
  by (induction g) (auto simp: edges_def)

lemma edges_map_of:
  "distinct (keys g) \<Longrightarrow> (a, b) \<in> set (edges g) \<longleftrightarrow> (\<exists>ls. map_of g a = Some ls \<and> b \<in> set ls)"
  unfolding edges_iff keys_def by (metis map_of_eq_Some_iff)

lemma add_sources_spec:
  assumes "set ls \<subseteq> set (keys lf)"
  shows "\<exists>lf'. add_sources nm ls lf = Inr lf' \<and> keys lf' = keys lf
     \<and> (\<forall>l w. map_of lf l = Some w \<longrightarrow>
           (\<exists>w'. map_of lf' l = Some w' \<and> set w' = set w \<union> (if l \<in> set ls then {nm} else {})))"
  using assms
proof (induction ls arbitrary: lf)
  case Nil
  then show ?case by simp
next
  case (Cons link ls)
  then have "link \<in> set (keys lf)" by simp
  then obtain w0 where w0: "map_of lf link = Some w0"
    using key_map_of_Some by fastforce
  let ?lf1 = "AList.update link (oset_add w0 nm) lf"
  have k1: "keys ?lf1 = keys lf" using \<open>link \<in> set (keys lf)\<close> by (rule keys_update_in)
  with Cons.prems have "set ls \<subseteq> set (keys ?lf1)" by simp
  from Cons.IH [OF this] obtain lf' where r: "add_sources nm ls ?lf1 = Inr lf'"
    and k: "keys lf' = keys ?lf1"
    and m: "\<forall>l w. map_of ?lf1 l = Some w \<longrightarrow>
           (\<exists>w'. map_of lf' l = Some w' \<and> set w' = set w \<union> (if l \<in> set ls then {nm} else {}))"
    by blast
  have "add_sources nm (link # ls) lf = Inr lf'" using w0 r by simp
  moreover have "keys lf' = keys lf" using k k1 by simp
  moreover have "\<forall>l w. map_of lf l = Some w \<longrightarrow>
           (\<exists>w'. map_of lf' l = Some w' \<and> set w' = set w \<union> (if l \<in> set (link # ls) then {nm} else {}))"
  proof (intro allI impI)
    fix l w assume lw: "map_of lf l = Some w"
    show "\<exists>w'. map_of lf' l = Some w' \<and> set w' = set w \<union> (if l \<in> set (link # ls) then {nm} else {})"
    proof (cases "l = link")
      case True
      then have "map_of ?lf1 l = Some (oset_add w0 nm)" by (simp add: update_conv')
      with m obtain w' where "map_of lf' l = Some w'"
        "set w' = set (oset_add w0 nm) \<union> (if l \<in> set ls then {nm} else {})" by blast
      moreover have "w = w0" using lw w0 True by simp
      ultimately show ?thesis using True by (auto simp: oset_add_def)
    next
      case False
      then have "map_of ?lf1 l = Some w" using lw by (simp add: update_conv')
      with m False show ?thesis by auto
    qed
  qed
  ultimately show ?case by blast
qed

lemma invert_links_spec:
  assumes "\<forall>ls \<in> set (map snd rest). set ls \<subseteq> set (keys lf)"
  shows "\<exists>lf'. invert_links rest lf = Inr lf' \<and> keys lf' = keys lf
     \<and> (\<forall>l w. map_of lf l = Some w \<longrightarrow>
           (\<exists>w'. map_of lf' l = Some w' \<and> set w' = set w \<union> preds rest l))"
  using assms
proof (induction rest arbitrary: lf)
  case Nil
  then show ?case by (simp add: preds_def edges_def)
next
  case (Cons p rest)
  obtain nm ls where p: "p = (nm, ls)" by (cases p)
  with Cons.prems have "set ls \<subseteq> set (keys lf)" by simp
  from add_sources_spec [OF this, of nm] obtain lf1 where
    r1: "add_sources nm ls lf = Inr lf1" and k1: "keys lf1 = keys lf"
    and m1: "\<forall>l w. map_of lf l = Some w \<longrightarrow>
           (\<exists>w'. map_of lf1 l = Some w' \<and> set w' = set w \<union> (if l \<in> set ls then {nm} else {}))"
    by blast
  from Cons.prems k1 have "\<forall>ls \<in> set (map snd rest). set ls \<subseteq> set (keys lf1)" by simp
  from Cons.IH [OF this] obtain lf' where
    r: "invert_links rest lf1 = Inr lf'" and k: "keys lf' = keys lf1"
    and m: "\<forall>l w. map_of lf1 l = Some w \<longrightarrow>
           (\<exists>w'. map_of lf' l = Some w' \<and> set w' = set w \<union> preds rest l)"
    by blast
  have "invert_links (p # rest) lf = Inr lf'" using p r1 r by simp
  moreover have "keys lf' = keys lf" using k k1 by simp
  moreover have "\<forall>l w. map_of lf l = Some w \<longrightarrow>
           (\<exists>w'. map_of lf' l = Some w' \<and> set w' = set w \<union> preds (p # rest) l)"
  proof (intro allI impI)
    fix l w assume "map_of lf l = Some w"
    with m1 obtain w1 where w1: "map_of lf1 l = Some w1"
      "set w1 = set w \<union> (if l \<in> set ls then {nm} else {})" by blast
    with m obtain w' where w': "map_of lf' l = Some w'" "set w' = set w1 \<union> preds rest l" by blast
    have "preds (p # rest) l = (if l \<in> set ls then {nm} else {}) \<union> preds rest l"
      unfolding preds_def p edges_Cons by auto
    with w1 w' show "\<exists>w'. map_of lf' l = Some w' \<and> set w' = set w \<union> preds (p # rest) l"
      by auto
  qed
  ultimately show ?case by blast
qed

lemma build_link_from_spec:
  assumes "closed_graph g"
  shows "\<exists>lf0. build_link_from g = Inr lf0 \<and> keys lf0 = keys g
     \<and> (\<forall>l \<in> set (keys g). \<exists>w. map_of lf0 l = Some w \<and> set w = preds g l)"
proof -
  let ?e = "map (\<lambda>nm. (nm, []::name list)) (keys g)"
  have ke: "keys ?e = keys g" by (simp add: keys_def comp_def)
  have "\<forall>ls \<in> set (map snd g). set ls \<subseteq> set (keys ?e)"
    using assms unfolding closed_graph_def ke by auto
  from invert_links_spec [OF this] obtain lf0 where
    r: "invert_links g ?e = Inr lf0" and k: "keys lf0 = keys ?e"
    and m: "\<forall>l w. map_of ?e l = Some w \<longrightarrow>
           (\<exists>w'. map_of lf0 l = Some w' \<and> set w' = set w \<union> preds g l)"
    by blast
  have e: "map_of ?e l = Some []" if "l \<in> set (keys g)" for l
    using that by (induction "keys g") (auto simp: map_of_map_restrict)
  have "\<forall>l \<in> set (keys g). \<exists>w. map_of lf0 l = Some w \<and> set w = preds g l"
    using e m by fastforce
  with r k ke show ?thesis by (auto simp: build_link_from_def)
qed

lemma del_all_spec:
  assumes "distinct ns" "set ns \<subseteq> set (keys lf)"
  shows "del_all ns lf = Inr (filter (\<lambda>p. fst p \<notin> set ns) lf)"
  using assms
proof (induction ns arbitrary: lf)
  case Nil
  then show ?case by simp
next
  case (Cons n ns)
  have "set ns \<subseteq> set (keys (AList.delete n lf))"
    using Cons.prems by (auto simp: keys_delete)
  with Cons have "del_all ns (AList.delete n lf)
      = Inr (filter (\<lambda>p. fst p \<notin> set ns) (AList.delete n lf))" by simp
  moreover have "filter (\<lambda>p. fst p \<notin> set ns) (AList.delete n lf)
      = filter (\<lambda>p. fst p \<notin> set (n # ns)) lf"
    unfolding AList.delete_eq by (induction lf) auto
  ultimately show ?case using Cons.prems by simp
qed


lemma order_loop_rule:
  assumes init: "I lf ready ordered"
    and step: "\<forall>lf ready ordered ready1 lf1.
        I lf ready ordered \<and> refill lf ready = Some (ready1, lf1) \<longrightarrow>
        (\<exists>ls lf2 ready2. map_of g (last ready1) = Some ls
          \<and> release (last ready1) (rev ls) lf1 (butlast ready1) = Inr (lf2, ready2)
          \<and> I lf2 ready2 (ordered @ [last ready1]))"
  shows "\<exists>out lf'. order_loop g lf ready ordered = Inr (out, lf')
          \<and> I lf' [] out \<and> refill lf' [] = None"
  using init step
proof (induction g lf ready ordered rule: order_loop.induct)
  case (1 link_to lf ready ordered)
  note step = "1.prems"(2)
  show ?case
  proof (cases "refill lf ready")
    case None
    then have "ready = []" by (auto simp: refill_def split: if_splits)
    with None "1.prems"(1) show ?thesis by simp
  next
    case (Some x2)
    obtain ready1 lf1 where x2: "x2 = (ready1, lf1)" by (cases x2)
    from step "1.prems"(1) Some [unfolded x2]
    obtain ls lf2 ready2 where m: "map_of link_to (last ready1) = Some ls"
      and r: "release (last ready1) (rev ls) lf1 (butlast ready1) = Inr (lf2, ready2)"
      and i: "I lf2 ready2 (ordered @ [last ready1])"
      by blast
    from "1.IH" [OF Some x2 [symmetric] m r refl i step]
    obtain out lf' where
      "order_loop link_to lf2 ready2 (ordered @ [last ready1]) = Inr (out, lf')"
      "I lf' [] out" "refill lf' [] = None"
      by blast
    moreover have "order_loop link_to lf ready ordered
        = order_loop link_to lf2 ready2 (ordered @ [last ready1])"
      using Some x2 m r by simp
    ultimately show ?thesis by auto
  qed
qed

lemma refill_Some:
  assumes "refill lf ready = Some (ready1, lf1)"
  shows "(ready \<noteq> [] \<and> ready1 = ready \<and> lf1 = lf)
     \<or> (ready = [] \<and> (\<exists>nm. nm \<in> set (keys lf) \<and> ready1 = [nm] \<and> lf1 = AList.delete nm lf))"
  using assms by (auto simp: refill_def find_Some_iff split: if_splits option.splits)

lemma refill_inv:
  assumes "loop_inv g lf ready ordered" "refill lf ready = Some (ready1, lf1)"
  shows "loop_inv g lf1 ready1 ordered \<and> ready1 \<noteq> []"
proof -
  from refill_Some [OF assms(2)] show ?thesis
  proof
    assume "ready \<noteq> [] \<and> ready1 = ready \<and> lf1 = lf"
    with assms(1) show ?thesis by simp
  next
    assume "ready = [] \<and> (\<exists>nm. nm \<in> set (keys lf) \<and> ready1 = [nm] \<and> lf1 = AList.delete nm lf)"
    then obtain nm where e: "ready = []" "nm \<in> set (keys lf)" "ready1 = [nm]"
      "lf1 = AList.delete nm lf" by blast
    have "distinct (keys lf1 @ ready1 @ ordered)"
      using assms(1) e by (auto simp: loop_inv_def keys_delete distinct_removeAll)
    moreover have "set (keys lf1 @ ready1 @ ordered) = set (keys g)"
      using assms(1) e by (auto simp: loop_inv_def keys_delete)
    moreover have "\<forall>l w. map_of lf1 l = Some w \<longrightarrow> preds g l - set ordered \<subseteq> set w"
      using assms(1) e by (auto simp: loop_inv_def delete_conv' split: if_splits)
    ultimately show ?thesis using e by (simp add: loop_inv_def)
  qed
qed

lemma step_inv:
  assumes wf: "wf_graph g"
    and inv: "loop_inv g lf1 ready1 ordered" and ne: "ready1 \<noteq> []"
  shows "\<exists>ls lf2 ready2. map_of g (last ready1) = Some ls
          \<and> release (last ready1) (rev ls) lf1 (butlast ready1) = Inr (lf2, ready2)
          \<and> loop_inv g lf2 ready2 (ordered @ [last ready1])"
proof -
  from ne obtain rs nm where ready1: "ready1 = rs @ [nm]" by (cases ready1 rule: rev_cases) auto
  from inv have d: "distinct (keys lf1 @ (rs @ [nm]) @ ordered)"
    and u: "set (keys lf1 @ (rs @ [nm]) @ ordered) = set (keys g)"
    and k: "\<forall>l w. map_of lf1 l = Some w \<longrightarrow> preds g l - set ordered \<subseteq> set w"
    unfolding loop_inv_def ready1 by auto
  from u have "nm \<in> set (keys g)" by auto
  then obtain ls where ls: "map_of g nm = Some ls" using key_map_of_Some by fastforce
  from wf have dg: "distinct (keys g)" by (simp add: wf_graph_def)
  from ls have "(nm, ls) \<in> set g" by (rule map_of_SomeD)
  with wf have dls: "distinct ls" by (force simp: wf_graph_def)
  have nmo: "nm \<notin> set ordered" using d by auto
  have pre: "\<forall>link \<in> set (rev ls). \<forall>w. map_of lf1 link = Some w \<longrightarrow> nm \<in> set w"
  proof (intro ballI allI impI)
    fix link w assume "link \<in> set (rev ls)" "map_of lf1 link = Some w"
    then have "nm \<in> preds g link - set ordered"
      using ls nmo dg by (auto simp: preds_def edges_map_of)
    with k \<open>map_of lf1 link = Some w\<close> show "nm \<in> set w" by blast
  qed
  have d1: "distinct (keys lf1)" using d by simp
  from release_spec [OF d1 _ pre, of rs] dls
  obtain lf2 new where r: "release nm (rev ls) lf1 rs = Inr (lf2, rs @ new)"
    and p: "distinct (keys lf2)" "distinct new" "set new \<subseteq> set (rev ls) \<inter> set (keys lf1)"
      "set (keys lf2) = set (keys lf1) - set new"
      "\<forall>l w'. map_of lf2 l = Some w' \<longrightarrow>
            (\<exists>w. map_of lf1 l = Some w
               \<and> w' = (if l \<in> set (rev ls) then removeAll nm w else w)
               \<and> (l \<in> set (rev ls) \<longrightarrow> w' \<noteq> []))"
    by auto
  have "distinct (keys lf2 @ (rs @ new) @ (ordered @ [nm]))"
    using d p(1,2,3,4) by auto
  moreover have "set (keys lf2 @ (rs @ new) @ (ordered @ [nm])) = set (keys g)"
    using u p(3,4) by auto
  moreover have "\<forall>l w'. map_of lf2 l = Some w' \<longrightarrow> preds g l - set (ordered @ [nm]) \<subseteq> set w'"
  proof (intro allI impI)
    fix l w' assume "map_of lf2 l = Some w'"
    with p(5) obtain w where w: "map_of lf1 l = Some w"
      "w' = (if l \<in> set (rev ls) then removeAll nm w else w)" by blast
    with k have "preds g l - set ordered \<subseteq> set w" by blast
    with w(2) show "preds g l - set (ordered @ [nm]) \<subseteq> set w'" by auto
  qed
  ultimately have "loop_inv g lf2 (rs @ new) (ordered @ [nm])"
    by (simp add: loop_inv_def)
  with ls r show ?thesis by (simp add: ready1)
qed

lemma order_loop_perm:
  assumes wf: "wf_graph g" and inv: "loop_inv g lf ready ordered"
  shows "\<exists>out lf'. order_loop g lf ready ordered = Inr (out, lf')
          \<and> loop_inv g lf' [] out \<and> refill lf' [] = None"
proof (rule order_loop_rule [where I = "loop_inv g", OF inv], intro allI impI, elim conjE)
  fix lf ready ordered ready1 lf1
  assume "loop_inv g lf ready ordered" "refill lf ready = Some (ready1, lf1)"
  then have "loop_inv g lf1 ready1 ordered \<and> ready1 \<noteq> []" by (rule refill_inv)
  then show "\<exists>ls lf2 ready2. map_of g (last ready1) = Some ls
          \<and> release (last ready1) (rev ls) lf1 (butlast ready1) = Inr (lf2, ready2)
          \<and> loop_inv g lf2 ready2 (ordered @ [last ready1])"
    using step_inv [OF wf] by blast
qed


lemma seed_inv:
  assumes dk: "distinct (keys lf0)" and k0: "keys lf0 = keys g"
    and m0: "\<forall>l \<in> set (keys g). \<exists>w. map_of lf0 l = Some w \<and> set w = preds g l"
  shows "\<exists>lf. del_all (seed_ready lf0) lf0 = Inr lf
           \<and> lf = filter (\<lambda>p. snd p \<noteq> []) lf0
           \<and> loop_inv g lf (seed_ready lf0) []"
proof -
  let ?ready = "seed_ready lf0"
  have sr: "set ?ready = {k. (k, []) \<in> set lf0}"
    by (auto simp: seed_ready_def image_iff)
  have dr: "distinct ?ready"
    using dk unfolding seed_ready_def keys_def by (simp add: distinct_map_filter)
  have sub: "set ?ready \<subseteq> set (keys lf0)"
    unfolding sr keys_def by force
  have notin: "fst p \<notin> set ?ready \<longleftrightarrow> snd p \<noteq> []" if "p \<in> set lf0" for p
  proof -
    obtain k w where p: "p = (k, w)" by (cases p)
    have "(k, []) \<in> set lf0 \<longleftrightarrow> w = []"
      using that dk unfolding p keys_def by (metis eq_key_imp_eq_value)
    then show ?thesis by (simp add: sr p)
  qed
  then have feq: "filter (\<lambda>p. fst p \<notin> set ?ready) lf0 = filter (\<lambda>p. snd p \<noteq> []) lf0"
    by (metis (mono_tags, lifting) filter_cong)
  let ?lf = "filter (\<lambda>p. snd p \<noteq> []) lf0"
  have r: "del_all ?ready lf0 = Inr ?lf"
    using del_all_spec [OF dr sub] feq by simp
  have klf: "keys ?lf = filter (\<lambda>k. k \<notin> set ?ready) (keys lf0)"
    unfolding feq [symmetric] keys_def by (simp add: filter_map comp_def)
  have "distinct (keys ?lf @ ?ready @ [])"
    unfolding klf using dk dr by auto
  moreover have "set (keys ?lf @ ?ready @ []) = set (keys g)"
    unfolding klf using sub k0 by auto
  moreover have "\<forall>l w. map_of ?lf l = Some w \<longrightarrow> preds g l - set [] \<subseteq> set w"
  proof (intro allI impI)
    fix l w assume "map_of ?lf l = Some w"
    then have "(l, w) \<in> set lf0" by (auto dest: map_of_SomeD)
    then have "map_of lf0 l = Some w"
      using dk unfolding keys_def by simp
    moreover from this have "l \<in> set (keys g)"
      using map_of_Some_key [of lf0 l w] k0 by simp
    ultimately have "map_of lf0 l = Some w" "l \<in> set (keys g)" by auto
    with m0 show "preds g l - set [] \<subseteq> set w" by auto
  qed
  ultimately have "loop_inv g ?lf ?ready []" unfolding loop_inv_def by blast
  with r show ?thesis by blast
qed


lemma find_first:
  "xs = pre @ n # post \<Longrightarrow> P n \<Longrightarrow> \<forall>m \<in> set pre. \<not> P m \<Longrightarrow> find P xs = Some n"
  by (induction pre arbitrary: xs) auto

lemma refill_None_iff:
  "refill lf [] = None \<longleftrightarrow> (\<forall>m \<in> set cycle_breakers. m \<notin> set (keys lf))"
proof -
  have "refill lf [] = None \<longleftrightarrow> find (\<lambda>nm. nm \<in> set (keys lf)) cycle_breakers = None"
    by (simp add: refill_def split: option.splits)
  then show ?thesis unfolding find_None_iff by blast
qed









lemma edge_source_key: "(a, b) \<in> set (edges g) \<Longrightarrow> a \<in> set (keys g)"
  by (auto simp: edges_iff keys_def rev_image_eqI)

lemma acyclic_drained:
  assumes ac: "acyclic (set (edges g))" and inv: "topo_inv g lf [] ordered"
  shows "lf = []"
proof (rule ccontr)
  assume "lf \<noteq> []"
  then obtain l0 where l0: "l0 \<in> set (keys lf)" by (cases lf) (auto simp: keys_def)
  have "wf (set (edges g))" using ac by (simp add: finite_acyclic_wf)
  from wfE_min [OF this l0] obtain z where z: "z \<in> set (keys lf)"
    and zmin: "\<And>y. (y, z) \<in> set (edges g) \<Longrightarrow> y \<notin> set (keys lf)" by blast
  from z obtain w where w: "map_of lf z = Some w" using key_map_of_Some by fastforce
  with inv have "w \<noteq> []" "set w \<subseteq> preds g z - set ordered" by (auto simp: topo_inv_def)
  then obtain n where n: "(n, z) \<in> set (edges g)" "n \<notin> set ordered"
    by (cases w) (auto simp: preds_def)
  then have "n \<in> set (keys g)" using edge_source_key by blast
  moreover from inv have "set (keys lf @ [] @ ordered) = set (keys g)"
    by (simp add: topo_inv_def loop_inv_def)
  ultimately have "n \<in> set (keys lf)" using n(2) by auto
  with zmin n(1) show False by blast
qed

lemma topo_step:
  assumes wf: "wf_graph g"
    and inv: "topo_inv g lf ready ordered" and ne: "ready \<noteq> []"
  shows "\<exists>ls lf2 ready2. map_of g (last ready) = Some ls
          \<and> release (last ready) (rev ls) lf (butlast ready) = Inr (lf2, ready2)
          \<and> topo_inv g lf2 ready2 (ordered @ [last ready])"
proof -
  from ne obtain rs nm where ready: "ready = rs @ [nm]" by (cases ready rule: rev_cases) auto
  from inv have li: "loop_inv g lf (rs @ [nm]) ordered"
    and e1: "\<forall>l w. map_of lf l = Some w \<longrightarrow> w \<noteq> [] \<and> set w \<subseteq> preds g l - set ordered"
    and e2: "\<forall>a b. (a, b) \<in> set (edges g) \<and> b \<in> set (rs @ [nm]) \<longrightarrow> a \<in> set ordered"
    and e3: "\<forall>a b. (a, b) \<in> set (edges g) \<and> b \<in> set ordered
           \<longrightarrow> (\<exists>pre mid post. ordered = pre @ a # mid @ b # post)"
    unfolding topo_inv_def ready by blast+
  from li have d: "distinct (keys lf @ (rs @ [nm]) @ ordered)"
    and u: "set (keys lf @ (rs @ [nm]) @ ordered) = set (keys g)"
    and k: "\<forall>l w. map_of lf l = Some w \<longrightarrow> preds g l - set ordered \<subseteq> set w"
    unfolding loop_inv_def by auto
  from u have "nm \<in> set (keys g)" by auto
  then obtain ls where ls: "map_of g nm = Some ls" using key_map_of_Some by fastforce
  from wf have dg: "distinct (keys g)" by (simp add: wf_graph_def)
  from ls have "(nm, ls) \<in> set g" by (rule map_of_SomeD)
  with wf have dls: "distinct ls" by (force simp: wf_graph_def)
  have nmo: "nm \<notin> set ordered" using d by auto
  have edge_nm: "(nm, l) \<in> set (edges g) \<longleftrightarrow> l \<in> set ls" for l
    using ls dg by (simp add: edges_map_of)
  have pre: "\<forall>link \<in> set (rev ls). \<forall>w. map_of lf link = Some w \<longrightarrow> nm \<in> set w"
  proof (intro ballI allI impI)
    fix link w assume "link \<in> set (rev ls)" "map_of lf link = Some w"
    then have "nm \<in> preds g link - set ordered"
      using edge_nm nmo by (auto simp: preds_def)
    with k \<open>map_of lf link = Some w\<close> show "nm \<in> set w" by blast
  qed
  have d1: "distinct (keys lf)" using d by simp
  from release_spec [OF d1 _ pre, of rs] dls
  obtain lf2 new where r: "release nm (rev ls) lf rs = Inr (lf2, rs @ new)"
    and p: "distinct (keys lf2)" "distinct new" "set new \<subseteq> set (rev ls) \<inter> set (keys lf)"
      "set (keys lf2) = set (keys lf) - set new"
      "\<forall>l \<in> set new. \<exists>w. map_of lf l = Some w \<and> removeAll nm w = []"
      "\<forall>l w'. map_of lf2 l = Some w' \<longrightarrow>
            (\<exists>w. map_of lf l = Some w
               \<and> w' = (if l \<in> set (rev ls) then removeAll nm w else w)
               \<and> (l \<in> set (rev ls) \<longrightarrow> w' \<noteq> []))"
    by auto
  from step_inv [OF wf li] ls r
  have li2: "loop_inv g lf2 (rs @ new) (ordered @ [nm])" by simp
  have e1': "\<forall>l w'. map_of lf2 l = Some w'
       \<longrightarrow> w' \<noteq> [] \<and> set w' \<subseteq> preds g l - set (ordered @ [nm])"
  proof (intro allI impI)
    fix l w' assume "map_of lf2 l = Some w'"
    with p(6) obtain w where w: "map_of lf l = Some w"
      "w' = (if l \<in> set (rev ls) then removeAll nm w else w)" "l \<in> set (rev ls) \<longrightarrow> w' \<noteq> []"
      by blast
    from e1 w(1) have w1: "w \<noteq> []" "set w \<subseteq> preds g l - set ordered" by auto
    show "w' \<noteq> [] \<and> set w' \<subseteq> preds g l - set (ordered @ [nm])"
    proof (cases "l \<in> set ls")
      case True
      with w w1 show ?thesis by auto
    next
      case False
      then have "nm \<notin> preds g l" using edge_nm by (simp add: preds_def)
      with False w w1 show ?thesis by auto
    qed
  qed
  have e2': "\<forall>a b. (a, b) \<in> set (edges g) \<and> b \<in> set (rs @ new) \<longrightarrow> a \<in> set (ordered @ [nm])"
  proof (intro allI impI, elim conjE)
    fix a b assume ab: "(a, b) \<in> set (edges g)" and b: "b \<in> set (rs @ new)"
    show "a \<in> set (ordered @ [nm])"
    proof (cases "b \<in> set rs")
      case True
      with e2 ab show ?thesis by auto
    next
      case False
      with b have "b \<in> set new" by simp
      with p(5) obtain w where w: "map_of lf b = Some w" "removeAll nm w = []" by blast
      from w(2) have "set w \<subseteq> {nm}"
        by (metis Diff_eq_empty_iff set_removeAll set_empty)
      moreover from k w(1) have "preds g b - set ordered \<subseteq> set w" by blast
      ultimately show ?thesis using ab by (auto simp: preds_def)
    qed
  qed
  have e3': "\<forall>a b. (a, b) \<in> set (edges g) \<and> b \<in> set (ordered @ [nm])
           \<longrightarrow> (\<exists>pre mid post. ordered @ [nm] = pre @ a # mid @ b # post)"
  proof (intro allI impI, elim conjE)
    fix a b assume ab: "(a, b) \<in> set (edges g)" and b: "b \<in> set (ordered @ [nm])"
    show "\<exists>pre mid post. ordered @ [nm] = pre @ a # mid @ b # post"
    proof (cases "b \<in> set ordered")
      case True
      with e3 ab obtain pre mid post where "ordered = pre @ a # mid @ b # post" by blast
      then have "ordered @ [nm] = pre @ a # mid @ b # (post @ [nm])" by simp
      then show ?thesis by blast
    next
      case False
      with b have bn: "b = nm" by simp
      with e2 ab have "a \<in> set ordered" by auto
      then obtain pre mid where "ordered = pre @ a # mid" by (auto dest: split_list)
      then have "ordered @ [nm] = pre @ a # mid @ b # []" using bn by simp
      then show ?thesis by blast
    qed
  qed
  from li2 e1' e2' e3' have "topo_inv g lf2 (rs @ new) (ordered @ [nm])"
    unfolding topo_inv_def by blast
  with ls r show ?thesis by (simp add: ready)
qed

lemma order_loop_topo:
  assumes wf: "wf_graph g" and ac: "acyclic (set (edges g))"
    and inv: "topo_inv g lf ready ordered"
  shows "\<exists>out. order_loop g lf ready ordered = Inr (out, []) \<and> topo_inv g [] [] out"
proof -
  have "\<exists>out lf'. order_loop g lf ready ordered = Inr (out, lf')
          \<and> topo_inv g lf' [] out \<and> refill lf' [] = None"
  proof (rule order_loop_rule [where I = "topo_inv g", OF inv], intro allI impI, elim conjE)
    fix lf ready ordered ready1 lf1
    assume i: "topo_inv g lf ready ordered" and r: "refill lf ready = Some (ready1, lf1)"
    have "ready \<noteq> []"
    proof
      assume e: "ready = []"
      with i ac have "lf = []" using acyclic_drained by blast
      moreover have "refill [] [] = None" by (simp add: refill_None_iff keys_def)
      ultimately show False using e r by simp
    qed
    with r have "ready1 = ready" "lf1 = lf" by (auto simp: refill_def)
    with topo_step [OF wf i \<open>ready \<noteq> []\<close>]
    show "\<exists>ls lf2 ready2. map_of g (last ready1) = Some ls
          \<and> release (last ready1) (rev ls) lf1 (butlast ready1) = Inr (lf2, ready2)
          \<and> topo_inv g lf2 ready2 (ordered @ [last ready1])" by simp
  qed
  then obtain out lf' where o: "order_loop g lf ready ordered = Inr (out, lf')"
    and t: "topo_inv g lf' [] out" by blast
  from acyclic_drained [OF ac t] have "lf' = []" .
  with o t show ?thesis by auto
qed



section \<open>Lemmas about subgraph\<close>

lemma set_update_subset: "set (AList.update k v d) \<subseteq> insert (k, v) (set d)"
  by (induction d) auto

lemma update_mem: "(k, v) \<in> set (AList.update k v d)"
  by (induction d) auto

lemma keys_update: "set (keys (AList.update k v d)) = insert k (set (keys d))"
  unfolding keys_def by (auto simp: dom_update)

lemma set_delete_subset: "set (AList.delete k d) \<subseteq> set d"
  unfolding AList.delete_eq by auto

lemma keys_delete_set: "set (keys (AList.delete k d)) = set (keys d) - {k}"
  unfolding keys_def by (simp add: delete_keys)

lemma mem_key: "(n, v) \<in> set d \<Longrightarrow> n \<in> set (keys d)"
  unfolding keys_def by force

lemma discover_spec:
  "discover g limits reached ls remaining = Inr remaining' \<Longrightarrow>
     set (keys remaining) \<subseteq> set (keys remaining')
     \<and> (\<forall>l \<in> set ls. l \<in> set (keys reached) \<or> l \<in> set (keys remaining'))
     \<and> (\<forall>n v. (n, v) \<in> set remaining' \<longrightarrow> (n, v) \<in> set remaining
           \<or> (n \<in> set ls \<and> (\<exists>full. map_of g n = Some full \<and> v = filter_links limits full)))"
proof (induction ls arbitrary: remaining)
  case Nil
  then show ?case by simp
next
  case (Cons link ls)
  show ?case
  proof (cases "link \<in> set (keys reached)")
    case True
    with Cons.prems have "discover g limits reached ls remaining = Inr remaining'" by simp
    from Cons.IH [OF this] True show ?thesis by auto
  next
    case False
    with Cons.prems obtain full where g: "map_of g link = Some full"
      and d: "discover g limits reached ls
               (AList.update link (filter_links limits full) remaining) = Inr remaining'"
      by (auto split: option.splits)
    let ?rem1 = "AList.update link (filter_links limits full) remaining"
    from Cons.IH [OF d] have
      a: "set (keys ?rem1) \<subseteq> set (keys remaining')"
      and b: "\<forall>l \<in> set ls. l \<in> set (keys reached) \<or> l \<in> set (keys remaining')"
      and c: "\<forall>n v. (n, v) \<in> set remaining' \<longrightarrow> (n, v) \<in> set ?rem1
           \<or> (n \<in> set ls \<and> (\<exists>full. map_of g n = Some full \<and> v = filter_links limits full))"
      by blast+
    have 1: "set (keys remaining) \<subseteq> set (keys remaining')"
      using a by (auto simp: keys_update)
    have 2: "\<forall>l \<in> set (link # ls). l \<in> set (keys reached) \<or> l \<in> set (keys remaining')"
      using a b by (auto simp: keys_update)
    have 3: "\<forall>n v. (n, v) \<in> set remaining' \<longrightarrow> (n, v) \<in> set remaining
           \<or> (n \<in> set (link # ls) \<and> (\<exists>full. map_of g n = Some full \<and> v = filter_links limits full))"
    proof (intro allI impI)
      fix n v assume "(n, v) \<in> set remaining'"
      with c have "(n, v) \<in> set ?rem1
           \<or> (n \<in> set ls \<and> (\<exists>full. map_of g n = Some full \<and> v = filter_links limits full))"
        by blast
      then show "(n, v) \<in> set remaining
           \<or> (n \<in> set (link # ls) \<and> (\<exists>full. map_of g n = Some full \<and> v = filter_links limits full))"
        using set_update_subset [of link "filter_links limits full" remaining] g by auto
    qed
    from 1 2 3 show ?thesis by blast
  qed
qed

lemma init_remaining_spec:
  "init_remaining g limits starts remaining = Inr remaining' \<Longrightarrow>
     set (keys remaining') = set (keys remaining) \<union> set starts
     \<and> (\<forall>n v. (n, v) \<in> set remaining' \<longrightarrow> (n, v) \<in> set remaining
           \<or> (\<exists>full. map_of g n = Some full \<and> v = filter_links limits full))"
proof (induction starts arbitrary: remaining)
  case Nil
  then show ?case by simp
next
  case (Cons nm starts)
  from Cons.prems obtain full where g: "map_of g nm = Some full"
    and d: "init_remaining g limits starts
               (AList.update nm (filter_links limits full) remaining) = Inr remaining'"
    by (auto split: option.splits)
  let ?rem1 = "AList.update nm (filter_links limits full) remaining"
  from Cons.IH [OF d] have
    a: "set (keys remaining') = set (keys ?rem1) \<union> set starts"
    and c: "\<forall>n v. (n, v) \<in> set remaining' \<longrightarrow> (n, v) \<in> set ?rem1
           \<or> (\<exists>full. map_of g n = Some full \<and> v = filter_links limits full)"
    by blast+
  have "set (keys remaining') = set (keys remaining) \<union> set (nm # starts)"
    using a by (auto simp: keys_update)
  moreover have "\<forall>n v. (n, v) \<in> set remaining' \<longrightarrow> (n, v) \<in> set remaining
           \<or> (\<exists>full. map_of g n = Some full \<and> v = filter_links limits full)"
    using c set_update_subset [of nm "filter_links limits full" remaining] g by blast
  ultimately show ?case by blast
qed

lemma sub_inv_step:
  assumes inv: "sub_inv g starts limits ((nm, ls) # rest) reached"
    and d: "discover g limits (AList.update nm ls reached) ls
              (AList.delete nm ((nm, ls) # rest)) = Inr remaining'"
  shows "sub_inv g starts limits remaining' (AList.update nm ls reached)"
proof -
  let ?rem = "(nm, ls) # rest"
  let ?rem1 = "AList.delete nm ?rem"
  let ?reached = "AList.update nm ls reached"
  from inv have
    i1: "\<forall>n ls l. (n, ls) \<in> set reached \<and> l \<in> set ls
         \<longrightarrow> l \<in> set (keys reached) \<union> set (keys ?rem)"
    and i2: "\<forall>n v. (n, v) \<in> set ?rem \<union> set reached
         \<longrightarrow> (\<exists>full. map_of g n = Some full \<and> v = filter_links limits full)"
    and i3: "\<forall>n. n \<in> set (keys ?rem) \<union> set (keys reached) \<and> n \<in> set limits
         \<longrightarrow> n \<in> set starts"
    and i4: "set starts \<subseteq> set (keys ?rem) \<union> set (keys reached)"
    unfolding sub_inv_def by blast+
  from discover_spec [OF d] have
    a: "set (keys ?rem1) \<subseteq> set (keys remaining')"
    and b: "\<forall>l \<in> set ls. l \<in> set (keys ?reached) \<or> l \<in> set (keys remaining')"
    and c: "\<forall>n v. (n, v) \<in> set remaining' \<longrightarrow> (n, v) \<in> set ?rem1
           \<or> (n \<in> set ls \<and> (\<exists>full. map_of g n = Some full \<and> v = filter_links limits full))"
    by blast+
  have kr: "set (keys ?reached) = insert nm (set (keys reached))" by (rule keys_update)
  have k1: "set (keys ?rem1) = set (keys ?rem) - {nm}" by (rule keys_delete_set)
  have s1: "set ?rem1 \<subseteq> set ?rem" by (rule set_delete_subset)
  have sr: "set ?reached \<subseteq> insert (nm, ls) (set reached)" by (rule set_update_subset)
  from i2 obtain fullnm where fnm: "map_of g nm = Some fullnm" "ls = filter_links limits fullnm"
    by auto
  have ls_nolimit: "l \<notin> set limits" if "l \<in> set ls" for l
    using that fnm(2) by (simp add: filter_links_def)
  have 1: "\<forall>n v l. (n, v) \<in> set ?reached \<and> l \<in> set v
         \<longrightarrow> l \<in> set (keys ?reached) \<union> set (keys remaining')"
  proof (intro allI impI, elim conjE)
    fix n v l assume nv: "(n, v) \<in> set ?reached" and l: "l \<in> set v"
    show "l \<in> set (keys ?reached) \<union> set (keys remaining')"
    proof (cases "(n, v) = (nm, ls)")
      case True
      with l b show ?thesis by auto
    next
      case False
      with nv sr have "(n, v) \<in> set reached" by auto
      with i1 l have "l \<in> set (keys reached) \<union> set (keys ?rem)" by blast
      then show ?thesis using kr k1 a by auto
    qed
  qed
  have 2: "\<forall>n v. (n, v) \<in> set remaining' \<union> set ?reached
         \<longrightarrow> (\<exists>full. map_of g n = Some full \<and> v = filter_links limits full)"
  proof (intro allI impI)
    fix n v assume "(n, v) \<in> set remaining' \<union> set ?reached"
    then consider "(n, v) \<in> set remaining'" | "(n, v) \<in> set ?reached" by blast
    then show "\<exists>full. map_of g n = Some full \<and> v = filter_links limits full"
    proof cases
      case 1
      with c s1 i2 show ?thesis by blast
    next
      case 2
      with sr i2 show ?thesis by auto
    qed
  qed
  have 3: "\<forall>n. n \<in> set (keys remaining') \<union> set (keys ?reached) \<and> n \<in> set limits
         \<longrightarrow> n \<in> set starts"
  proof (intro allI impI, elim conjE)
    fix n assume n: "n \<in> set (keys remaining') \<union> set (keys ?reached)" and lim: "n \<in> set limits"
    show "n \<in> set starts"
    proof (cases "n \<in> set (keys ?rem) \<union> set (keys reached)")
      case True
      with i3 lim show ?thesis by blast
    next
      case False
      with n kr have "n \<in> set (keys remaining')" by (auto simp: keys_def)
      then obtain v where "(n, v) \<in> set remaining'" by (auto simp: keys_def)
      with c have "(n, v) \<in> set ?rem1 \<or> n \<in> set ls" by blast
      with s1 False have "n \<in> set ls" using mem_key [of n v ?rem] by blast
      with ls_nolimit lim show ?thesis by blast
    qed
  qed
  have 4: "set starts \<subseteq> set (keys remaining') \<union> set (keys ?reached)"
    using i4 kr k1 a by auto
  from 1 2 3 4 show ?thesis unfolding sub_inv_def by blast
qed

lemma subgraph_loop_inv:
  "sub_inv g starts limits remaining reached \<Longrightarrow>
   subgraph_loop g limits remaining reached = Inr r \<Longrightarrow> sub_inv g starts limits [] r"
proof (induction g limits remaining reached rule: subgraph_loop.induct)
  case (1 graph limits remaining reached)
  show ?case
  proof (cases remaining)
    case Nil
    with "1.prems" show ?thesis by simp
  next
    case (Cons a rest)
    obtain nm ls where a: "a = (nm, ls)" by (cases a)
    from "1.prems"(2) Cons a obtain remaining' where
      d: "discover graph limits (AList.update nm ls reached) ls
              (AList.delete nm remaining) = Inr remaining'"
      and l: "subgraph_loop graph limits remaining' (AList.update nm ls reached) = Inr r"
      by (auto split: sum.splits)
    from "1.prems"(1) d have "sub_inv graph starts limits remaining' (AList.update nm ls reached)"
      unfolding Cons a by (rule sub_inv_step)
    from "1.IH" [OF Cons a [symmetric] d this l] show ?thesis .
  qed
qed

lemma subgraph_inv:
  assumes "subgraph g starts limits = Inr r"
  shows "sub_inv g starts limits [] r"
proof -
  from assms obtain remaining where i: "init_remaining g limits starts [] = Inr remaining"
    and l: "subgraph_loop g limits remaining [] = Inr r"
    by (auto simp: subgraph_def split: sum.splits)
  from init_remaining_spec [OF i] have "sub_inv g starts limits remaining []"
    unfolding sub_inv_def by (auto simp: keys_def)
  from subgraph_loop_inv [OF this l] show ?thesis .
qed

lemma update_append_new:
  "k \<notin> set (keys d) \<Longrightarrow> AList.update k v d = d @ [(k, v)]"
  unfolding keys_def by (induction d) auto

lemma map_of_append_right:
  "l \<notin> set (keys xs) \<Longrightarrow> map_of (xs @ ys) l = map_of ys l"
  by (induction xs) (auto simp: keys_def)

lemma filter_links_none: "filter_links [] ls = ls"
  by (simp add: filter_links_def)

lemma init_remaining_all:
  assumes "distinct (keys rest)" "set (keys rest) \<inter> set (keys acc) = {}"
    and "\<forall>n ls. (n, ls) \<in> set rest \<longrightarrow> map_of g n = Some ls"
  shows "init_remaining g [] (keys rest) acc = Inr (acc @ rest)"
  using assms
proof (induction rest arbitrary: acc)
  case Nil
  then show ?case by (simp add: keys_def)
next
  case (Cons p rest)
  obtain n ls where p: "p = (n, ls)" by (cases p)
  from Cons.prems(3) p have g: "map_of g n = Some ls" by simp
  from Cons.prems(2) p have "n \<notin> set (keys acc)" by (auto simp: keys_def)
  then have u: "AList.update n ls acc = acc @ [(n, ls)]" by (rule update_append_new)
  have "init_remaining g [] (keys rest) (acc @ [(n, ls)]) = Inr ((acc @ [(n, ls)]) @ rest)"
  proof (rule Cons.IH)
    show "distinct (keys rest)" using Cons.prems(1) by (simp add: keys_def)
    show "set (keys rest) \<inter> set (keys (acc @ [(n, ls)])) = {}"
      using Cons.prems(1,2) p by (auto simp: keys_def)
    show "\<forall>n ls. (n, ls) \<in> set rest \<longrightarrow> map_of g n = Some ls"
      using Cons.prems(3) by simp
  qed
  then show ?case using g u p by (simp add: keys_def filter_links_none)
qed

lemma discover_noop:
  assumes "\<forall>l \<in> set ls. l \<in> set (keys reached)
             \<or> (\<exists>v. map_of g l = Some v \<and> map_of remaining l = Some v)"
  shows "discover g [] reached ls remaining = Inr remaining"
  using assms
proof (induction ls)
  case Nil
  then show ?case by simp
next
  case (Cons l ls)
  show ?case
  proof (cases "l \<in> set (keys reached)")
    case True
    with Cons show ?thesis by simp
  next
    case False
    with Cons.prems obtain v where v: "map_of g l = Some v" "map_of remaining l = Some v"
      by auto
    then have "AList.update l v remaining = remaining" by (simp add: update_triv)
    with Cons False v show ?thesis by (simp add: filter_links_none)
  qed
qed

lemma subgraph_loop_all:
  assumes "distinct (keys g)" "closed_graph g" "g = reached @ remaining"
  shows "subgraph_loop g [] remaining reached = Inr g"
  using assms(3)
proof (induction remaining arbitrary: reached)
  case Nil
  then show ?case by simp
next
  case (Cons p rest)
  obtain nm ls where p: "p = (nm, ls)" by (cases p)
  from assms(1) Cons.prems p have d: "distinct (keys reached @ nm # keys rest)"
    by (simp add: keys_def)
  then have nmr: "nm \<notin> set (keys reached)" and nmrest: "nm \<notin> fst ` set rest"
    by (auto simp: keys_def)
  have del: "AList.delete nm (p # rest) = rest"
    using nmrest by (simp add: p)
  have upd: "AList.update nm ls reached = reached @ [(nm, ls)]"
    using nmr by (rule update_append_new)
  let ?reached = "reached @ [(nm, ls)]"
  have g: "g = ?reached @ rest" using Cons.prems p by simp
  have "discover g [] ?reached ls rest = Inr rest"
  proof (rule discover_noop, intro ballI)
    fix l assume l: "l \<in> set ls"
    have "(nm, ls) \<in> set g" using g by simp
    with assms(2) l have "l \<in> set (keys g)" by (force simp: closed_graph_def)
    then have lk: "l \<in> set (keys ?reached) \<union> set (keys rest)"
      unfolding g keys_def by auto
    show "l \<in> set (keys ?reached) \<or> (\<exists>v. map_of g l = Some v \<and> map_of rest l = Some v)"
    proof (cases "l \<in> set (keys ?reached)")
      case True
      then show ?thesis by simp
    next
      case False
      with lk have "l \<in> set (keys rest)" by simp
      then obtain v where v: "map_of rest l = Some v" using key_map_of_Some by fastforce
      from False have "map_of g l = map_of rest l"
        unfolding g by (rule map_of_append_right)
      with v show ?thesis by simp
    qed
  qed
  moreover have "subgraph_loop g [] rest ?reached = Inr g"
    by (rule Cons.IH) (rule g)
  ultimately show ?case using del upd p by simp
qed


section \<open>Lemmas about link extraction\<close>



lemma str_find_end: "sub \<noteq> [] \<Longrightarrow> str_find s sub (length s) = None"
  by (simp add: str_find_def)








lemma find_links_in_macro_wrap:
  "find_links_in_macro (''<<'' @ inner @ ''>>'') =
     (case re_macro_arg_findall inner of
           [] \<Rightarrow> Inl ValueError
         | nm # args \<Rightarrow>
             if nm = ''display'' then
               (case args of
                  [] \<Rightarrow> Inl IndexError
                | a # _ \<Rightarrow>
                    (case unquote a of Inl e \<Rightarrow> Inl e | Inr t \<Rightarrow> Inr ([t], [])))
             else if nm = ''click'' then
               (case args of
                  [] \<Rightarrow> Inl IndexError
                | a # _ \<Rightarrow>
                    (case a of
                       [] \<Rightarrow> Inl IndexError
                     | c # _ \<Rightarrow>
                         if c = CHR ''['' then Inr (find_links_in_text a)
                         else if length args = 1 \<or> length args = 2 then
                           (case unquote (last args) of
                              Inl e \<Rightarrow> Inl e
                            | Inr t \<Rightarrow> Inr ([t], []))
                         else Inl AssertionError))
             else Inr ([], []))"
proof -
  have s: "startswith (''<<'' @ inner @ ''>>'') ''<<''" by (simp add: startswith_def)
  have e: "endswith (''<<'' @ inner @ ''>>'') ''>>''" by (simp add: endswith_def)
  have i: "slice (''<<'' @ inner @ ''>>'') 2 (length (''<<'' @ inner @ ''>>'') - 2) = inner"
    by (simp add: slice_def)
  show ?thesis unfolding find_links_in_macro_def using s e i by simp
qed


lemma re_macro_arg_findall_nonempty: "t \<in> set (re_macro_arg_findall s) \<Longrightarrow> t \<noteq> []"
proof (induction s rule: re_macro_arg_findall.induct)
  case 1
  then show ?case by simp
next
  case (2 c cs)
  then show ?case by (auto split: if_splits)
qed


lemma unquote_fails_iff: "(\<exists>e. unquote t = Inl e) \<longleftrightarrow> \<not> is_quoted t"
  by (cases t) (auto simp: unquote_def is_quoted_def)

lemma find_links_in_macro_fails_iff:
  "(\<exists>e. find_links_in_macro (''<<'' @ inner @ ''>>'') = Inl e) \<longleftrightarrow>
     re_macro_arg_findall inner = []
   \<or> (\<exists>args. re_macro_arg_findall inner = ''display'' # args \<and> (args = [] \<or> \<not> is_quoted (hd args)))
   \<or> (\<exists>args. re_macro_arg_findall inner = ''click'' # args
         \<and> (args = [] \<or> (hd (hd args) \<noteq> CHR ''[''
               \<and> (2 < length args \<or> \<not> is_quoted (last args)))))"
proof (cases "re_macro_arg_findall inner")
  case Nil
  then show ?thesis unfolding find_links_in_macro_wrap by simp
next
  case (Cons nm args)
  show ?thesis
  proof (cases args)
    case Nil
    with Cons show ?thesis unfolding find_links_in_macro_wrap by simp
  next
    case (Cons a rest)
    have "a \<in> set (re_macro_arg_findall inner)" using \<open>re_macro_arg_findall inner = nm # args\<close> Cons by simp
    then have "a \<noteq> []" by (rule re_macro_arg_findall_nonempty)
    then obtain c cs where a: "a = c # cs" by (cases a) auto
    have "0 < length args" using Cons by simp
    then have len: "(length args = 1 \<or> length args = 2) \<longleftrightarrow> \<not> 2 < length args"
      by arith
    consider "nm = ''display''" | "nm = ''click''" | "nm \<noteq> ''display''" "nm \<noteq> ''click''"
      by blast
    then show ?thesis
    proof cases
      case 1
      have "(\<exists>e. find_links_in_macro (''<<'' @ inner @ ''>>'') = Inl e)
          \<longleftrightarrow> (\<exists>e. unquote a = Inl e)"
        unfolding find_links_in_macro_wrap
        using 1 \<open>re_macro_arg_findall inner = nm # args\<close> Cons
        by (auto split: sum.splits)
      then show ?thesis
        using 1 \<open>re_macro_arg_findall inner = nm # args\<close> Cons unquote_fails_iff [of a] by simp
    next
      case 2
      have "(\<exists>e. find_links_in_macro (''<<'' @ inner @ ''>>'') = Inl e)
          \<longleftrightarrow> c \<noteq> CHR ''['' \<and> (2 < length args \<or> (\<exists>e. unquote (last args) = Inl e))"
        unfolding find_links_in_macro_wrap
        using 2 \<open>re_macro_arg_findall inner = nm # args\<close> Cons a len
        by (auto simp del: last.simps split: sum.splits)
      then show ?thesis
        using 2 \<open>re_macro_arg_findall inner = nm # args\<close> Cons a unquote_fails_iff [of "last args"]
        by (simp del: last.simps)
    next
      case 3
      with \<open>re_macro_arg_findall inner = nm # args\<close> show ?thesis
        unfolding find_links_in_macro_wrap by simp
    qed
  qed
qed


lemma slice_append: "i \<le> j \<Longrightarrow> j \<le> k \<Longrightarrow> slice s i j @ slice s j k = slice s i k"
proof -
  assume a: "i \<le> j" "j \<le> k"
  then have "k - i = (j - i) + (k - j)" by simp
  then have "take (k - i) (drop i s)
      = take (j - i) (drop i s) @ take (k - j) (drop (j - i) (drop i s))"
    by (simp only: take_add)
  with a show ?thesis by (simp add: slice_def)
qed

lemma slice_drop: "i \<le> j \<Longrightarrow> slice s i j @ drop j s = drop i s"
proof -
  assume a: "i \<le> j"
  have "take (j - i) (drop i s) @ drop (j - i) (drop i s) = drop i s"
    by (rule append_take_drop_id)
  with a show ?thesis by (simp add: slice_def)
qed

lemma slice_same: "slice s i i = []"
  by (simp add: slice_def)

lemma find_sub_at: "find_sub sub s = Some i \<Longrightarrow> take (length sub) (drop i s) = sub"
proof (induction s arbitrary: i)
  case Nil
  then show ?case by (simp split: if_splits)
next
  case (Cons c cs)
  show ?case
  proof (cases "take (length sub) (c # cs) = sub")
    case True
    with Cons.prems show ?thesis by simp
  next
    case False
    with Cons.prems obtain j where "find_sub sub cs = Some j" "i = Suc j" by auto
    with Cons.IH show ?thesis by simp
  qed
qed

lemma str_find_at: "str_find s sub pos = Some i \<Longrightarrow> startswith (drop i s) sub"
  using find_sub_at [of sub "drop pos s"]
  by (auto simp: str_find_def startswith_def add.commute split: if_splits)

lemma split_body_from_spec:
  "pos \<le> length body \<Longrightarrow> split_body_from body pos = (segs, reports) \<Longrightarrow>
     (reports = [] \<and> concat segs = drop pos body)
     \<or> (\<exists>start. pos \<le> start \<and> reports = [''incomplete macro: '' @ drop start body]
           \<and> concat segs = slice body pos start
           \<and> startswith (drop start body) ''<<'' \<and> str_find body ''>>'' start = None)"
proof (induction body pos arbitrary: segs reports rule: split_body_from.induct)
  case (1 body pos)
  show ?case
  proof (cases "pos < length body")
    case False
    with "1.prems" show ?thesis by simp
  next
    case True
    show ?thesis
    proof (cases "str_find body ''<<'' pos")
      case None
      with True "1.prems" show ?thesis by auto
    next
      case (Some start)
      then have ps: "pos \<le> start" and sw: "startswith (drop start body) ''<<''"
        using str_find_bounds [of body "''<<''" pos start] str_find_at [of body "''<<''" pos start]
        by auto
      have pre: "concat (if pos < start then [slice body pos start] else []) = slice body pos start"
        using ps by (auto simp: slice_same)
      show ?thesis
      proof (cases "str_find body ''>>'' start")
        case None
        with True Some "1.prems"(2) have "reports = [''incomplete macro: '' @ drop start body]"
          and "segs = (if pos < start then [slice body pos start] else [])" by auto
        with pre ps sw None show ?thesis by auto
      next
        case e: (Some e)
        then have se: "start \<le> e" and el: "e + 2 \<le> length body"
          using str_find_bounds [of body "''>>''" start e] by auto
        obtain segs' reports' where r: "split_body_from body (e + 2) = (segs', reports')"
          by (cases "split_body_from body (e + 2)")
        with True Some e "1.prems"(2)
        have segs: "segs = (if pos < start then [slice body pos start] else [])
                     @ slice body start (e + 2) # segs'"
          and reps: "reports = reports'" by auto
        have c: "concat segs = slice body pos (e + 2) @ concat segs'"
          using ps se by (simp add: segs pre slice_append del: concat.simps(2)) (simp add: slice_same slice_append)
        from "1.IH" [OF True Some e el r] show ?thesis
        proof
          assume "reports' = [] \<and> concat segs' = drop (e + 2) body"
          then show ?thesis using c reps ps se by (simp add: slice_drop)
        next
          assume "\<exists>start'. e + 2 \<le> start' \<and> reports' = [''incomplete macro: '' @ drop start' body]
             \<and> concat segs' = slice body (e + 2) start'
             \<and> startswith (drop start' body) ''<<'' \<and> str_find body ''>>'' start' = None"
          then obtain start' where s': "e + 2 \<le> start'"
            "reports' = [''incomplete macro: '' @ drop start' body]"
            "concat segs' = slice body (e + 2) start'"
            "startswith (drop start' body) ''<<''" "str_find body ''>>'' start' = None"
            by blast
          have "concat segs = slice body pos start'"
            using c s'(1,3) ps se by (simp add: slice_append)
          moreover have "pos \<le> start'" using ps se s'(1) by simp
          ultimately show ?thesis using s' reps by blast
        qed
      qed
    qed
  qed
qed


lemma take_take_le: "k \<le> n \<Longrightarrow> take k (take n xs) = take k xs"
  by (simp add: min_absorb1)

lemma find_sub_take_found:
  "find_sub sub s = Some i \<Longrightarrow> i + length sub \<le> n \<Longrightarrow> find_sub sub (take n s) = Some i"
proof (induction s arbitrary: i n)
  case Nil
  then show ?case by simp
next
  case (Cons c cs)
  show ?case
  proof (cases "take (length sub) (c # cs) = sub")
    case True
    with Cons.prems have i: "i = 0" and n: "length sub \<le> n" by auto
    show ?thesis
    proof (cases n)
      case 0
      with n True show ?thesis using i by simp
    next
      case (Suc m)
      have "take (length sub) (take (Suc m) (c # cs)) = take (length sub) (c # cs)"
        using n Suc by (intro take_take_le) simp
      then have "take (length sub) (c # take m cs) = sub" using True by simp
      with Suc i show ?thesis by simp
    qed
  next
    case False
    with Cons.prems obtain j where j: "find_sub sub cs = Some j" "i = Suc j" by auto
    with Cons.prems(2) obtain m where m: "n = Suc m" "j + length sub \<le> m"
      by (cases n) auto
    have "take (length sub) (take (Suc m) (c # cs)) = take (length sub) (c # cs)"
      using m by (intro take_take_le) simp
    with False have "take (length sub) (c # take m cs) \<noteq> sub" by simp
    with Cons.IH [OF j(1) m(2)] j(2) m(1) show ?thesis by simp
  qed
qed

lemma find_sub_take_cut:
  "find_sub sub s = Some i \<Longrightarrow> n \<le> i \<Longrightarrow> sub \<noteq> [] \<Longrightarrow> find_sub sub (take n s) = None"
proof (induction s arbitrary: i n)
  case Nil
  then show ?case by simp
next
  case (Cons c cs)
  show ?case
  proof (cases n)
    case 0
    with Cons.prems(3) show ?thesis by simp
  next
    case (Suc m)
    with Cons.prems(2) obtain j where i: "i = Suc j" "m \<le> j" by (cases i) auto
    with Cons.prems(1) have f: "take (length sub) (c # cs) \<noteq> sub" "find_sub sub cs = Some j"
      by (auto split: if_splits)
    have "take (length sub) (c # take m cs) \<noteq> sub"
    proof
      assume e: "take (length sub) (c # take m cs) = sub"
      then have "length (take (length sub) (c # take m cs)) = length sub" by simp
      then have "length sub \<le> Suc m" by (simp add: min_def split: if_splits)
      then have "take (length sub) (take (Suc m) (c # cs)) = take (length sub) (c # cs)"
        by (rule take_take_le)
      with e f(1) show False by simp
    qed
    with Cons.IH [OF f(2) i(2) Cons.prems(3)] Suc show ?thesis by simp
  qed
qed

lemma str_find_take_found:
  assumes "str_find s sub pos = Some i" "i + length sub \<le> n"
  shows "str_find (take n s) sub pos = Some i"
proof -
  from assms(1) obtain k where k: "pos \<le> length s" "find_sub sub (drop pos s) = Some k"
    "i = pos + k"
    by (auto simp: str_find_def split: if_splits)
  from assms(2) k(3) have "k + length sub \<le> n - pos" "pos \<le> n" by auto
  with k(2) have "find_sub sub (take (n - pos) (drop pos s)) = Some k"
    using find_sub_take_found by blast
  then have "find_sub sub (drop pos (take n s)) = Some k" by (simp add: drop_take)
  with k \<open>pos \<le> n\<close> show ?thesis by (simp add: str_find_def)
qed

lemma str_find_take_cut:
  assumes "str_find s sub pos = Some i" "n \<le> i" "sub \<noteq> []"
  shows "str_find (take n s) sub pos = None"
proof (cases "pos \<le> n")
  case False
  then show ?thesis by (simp add: str_find_def)
next
  case True
  from assms(1) obtain k where k: "pos \<le> length s" "find_sub sub (drop pos s) = Some k"
    "i = pos + k"
    by (auto simp: str_find_def split: if_splits)
  from assms(2) k(3) have "n - pos \<le> k" by auto
  with k(2) assms(3) have "find_sub sub (take (n - pos) (drop pos s)) = None"
    using find_sub_take_cut by blast
  then have "find_sub sub (drop pos (take n s)) = None" by (simp add: drop_take)
  then show ?thesis by (simp add: str_find_def)
qed

lemma slice_take: "j \<le> n \<Longrightarrow> slice (take n s) i j = slice s i j"
  by (simp add: slice_def drop_take min_def)

lemma find_links_from_spec:
  "find_links_from t pos = (links, reports) \<Longrightarrow>
     reports = []
     \<or> (\<exists>start. pos \<le> start \<and> reports = [''incomplete link: '' @ drop start t]
           \<and> startswith (drop start t) ''[['' \<and> str_find t '']]'' start = None
           \<and> find_links_from (take start t) pos = (links, []))"
proof (induction t pos arbitrary: links reports rule: find_links_from.induct)
  case (1 t pos)
  show ?case
  proof (cases "str_find t ''[['' pos")
    case None
    with "1.prems" show ?thesis by simp
  next
    case (Some start)
    then have ps: "pos \<le> start" and sw: "startswith (drop start t) ''[[''"
      using str_find_bounds [of t "''[[''" pos start] str_find_at [of t "''[[''" pos start]
      by auto
    show ?thesis
    proof (cases "str_find t '']]'' start")
      case None
      with Some "1.prems" have l: "links = []"
        and r: "reports = [''incomplete link: '' @ drop start t]" by auto
      have "str_find (take start t) ''[['' pos = None"
        using Some by (rule str_find_take_cut) simp_all
      then have "find_links_from (take start t) pos = ([], [])"
        by (subst find_links_from.simps) simp
      with l r ps sw None show ?thesis by blast
    next
      case e: (Some e)
      then have se: "start \<le> e"
        using str_find_bounds [of t "'']]''" start e] by auto
      obtain links' reports' where rec: "find_links_from t (e + 2) = (links', reports')"
        by (cases "find_links_from t (e + 2)")
      with Some e "1.prems"
      have links: "links = link_target (slice t (start + 2) e) # links'"
        and reps: "reports = reports'" by auto
      from "1.IH" [OF Some e rec] show ?thesis
      proof
        assume "reports' = []"
        with reps show ?thesis by simp
      next
        assume "\<exists>start'. e + 2 \<le> start' \<and> reports' = [''incomplete link: '' @ drop start' t]
           \<and> startswith (drop start' t) ''[['' \<and> str_find t '']]'' start' = None
           \<and> find_links_from (take start' t) (e + 2) = (links', [])"
        then obtain start' where s': "e + 2 \<le> start'"
          "reports' = [''incomplete link: '' @ drop start' t]"
          "startswith (drop start' t) ''[[''" "str_find t '']]'' start' = None"
          "find_links_from (take start' t) (e + 2) = (links', [])"
          by blast
        have f1: "str_find (take start' t) ''[['' pos = Some start"
          using Some by (rule str_find_take_found) (use se s'(1) in simp)
        have f2: "str_find (take start' t) '']]'' start = Some e"
          using e by (rule str_find_take_found) (use s'(1) in simp)
        have f3: "slice (take start' t) (start + 2) e = slice t (start + 2) e"
          by (rule slice_take) (use s'(1) in simp)
        have "find_links_from (take start' t) pos = (links, [])"
          by (subst find_links_from.simps)
            (simp only: f1 f2 f3 s'(5) links option.case prod.case Let_def)
        moreover have "pos \<le> start'" using ps se s'(1) by simp
        ultimately show ?thesis using s' reps by blast
      qed
    qed
  qed
qed

lemma links_of_segments_error:
  "links_of_segments segs = Inl e \<Longrightarrow>
     \<exists>seg \<in> set segs. startswith seg ''<<'' \<and> find_links_in_macro seg = Inl e"
proof (induction segs)
  case Nil
  then show ?case by simp
next
  case (Cons seg segs)
  show ?case
  proof (cases "startswith seg ''<<'' \<and> find_links_in_macro seg = Inl e")
    case True
    then show ?thesis by simp
  next
    case False
    with Cons.prems have "links_of_segments segs = Inl e"
      by (auto split: if_splits sum.splits prod.splits)
    with Cons.IH show ?thesis by auto
  qed
qed

lemma links_of_segments_append:
  "links_of_segments xs = Inr (l1, r1) \<Longrightarrow> links_of_segments ys = Inr (l2, r2) \<Longrightarrow>
     links_of_segments (xs @ ys) = Inr (l1 @ l2, r1 @ r2)"
proof (induction xs arbitrary: l1 r1)
  case Nil
  then show ?case by simp
next
  case (Cons seg xs)
  from Cons.prems(1) obtain la ra lb rb where
    a: "(if startswith seg ''<<'' then find_links_in_macro seg
         else Inr (find_links_in_text seg)) = Inr (la, ra)"
    and b: "links_of_segments xs = Inr (lb, rb)"
    and e: "l1 = la @ lb" "r1 = ra @ rb"
    by (auto split: sum.splits prod.splits)
  from Cons.IH [OF b Cons.prems(2)] have "links_of_segments (xs @ ys) = Inr (lb @ l2, rb @ r2)" .
  with a e show ?case by (simp split: sum.splits prod.splits)
qed


lemma find_sub_first:
  "take (length sub) (drop i s) = sub \<Longrightarrow> i \<le> length s \<Longrightarrow> \<exists>j\<le>i. find_sub sub s = Some j"
proof (induction s arbitrary: i)
  case Nil
  then show ?case by simp
next
  case (Cons c cs)
  show ?case
  proof (cases "take (length sub) (c # cs) = sub")
    case True
    then show ?thesis by simp
  next
    case False
    with Cons.prems obtain k where k: "i = Suc k" by (cases i) auto
    with Cons.prems have "take (length sub) (drop k cs) = sub" "k \<le> length cs" by auto
    from Cons.IH [OF this] obtain j where "j \<le> k" "find_sub sub cs = Some j" by blast
    with False k show ?thesis by simp
  qed
qed

lemma str_find_first:
  assumes "startswith (drop i s) sub" "pos \<le> i" "i \<le> length s"
  shows "\<exists>j. pos \<le> j \<and> j \<le> i \<and> str_find s sub pos = Some j"
proof -
  from assms have "take (length sub) (drop (i - pos) (drop pos s)) = sub"
    by (simp add: startswith_def)
  moreover from assms have "i - pos \<le> length (drop pos s)" by simp
  ultimately obtain k where "k \<le> i - pos" "find_sub sub (drop pos s) = Some k"
    using find_sub_first by blast
  with assms show ?thesis by (auto simp: str_find_def)
qed

lemma startswith_two:
  "startswith (drop i s) [a, b] \<Longrightarrow> i + 2 \<le> length s \<and> s ! i = a \<and> s ! Suc i = b"
proof -
  assume a: "startswith (drop i s) [a, b]"
  then have t: "take (Suc (Suc 0)) (drop i s) = [a, b]" by (simp add: startswith_def)
  then have "length (take (Suc (Suc 0)) (drop i s)) = Suc (Suc 0)" by simp
  then have l: "i + 2 \<le> length s" by (simp add: min_def split: if_splits)
  from t have "take (Suc (Suc 0)) (drop i s) ! 0 = a" "take (Suc (Suc 0)) (drop i s) ! Suc 0 = b"
    by simp_all
  with l show ?thesis by (simp add: add.commute)
qed

lemma closer_before_opener:
  assumes o: "startswith (drop i s) [a, a]" and n: "str_find s [b, b] i = None"
    and e: "str_find s [b, b] start = Some e" and ab: "a \<noteq> b"
  shows "e + 2 \<le> i"
proof -
  from e have se: "startswith (drop e s) [b, b]" by (rule str_find_at)
  from startswith_two [OF se] have el: "e + 2 \<le> length s" and e1: "s ! Suc e = b" by auto
  from startswith_two [OF o] have i0: "s ! i = a" by auto
  have "\<not> i \<le> e"
  proof
    assume "i \<le> e"
    with se el obtain j where "str_find s [b, b] i = Some j"
      using str_find_first [of e s "[b, b]" i] by auto
    with n show False by simp
  qed
  moreover have "Suc e \<noteq> i" using e1 i0 ab by auto
  ultimately show ?thesis by simp
qed

lemma split_body_from_reports:
  "pos \<le> i \<Longrightarrow> unterminated_at ''<<'' ''>>'' body i \<Longrightarrow>
     \<exists>start. pos \<le> start \<and> start \<le> i
        \<and> snd (split_body_from body pos) = [''incomplete macro: '' @ drop start body]"
proof (induction body pos rule: split_body_from.induct)
  case (1 body pos)
  from "1.prems"(2) have o: "startswith (drop i body) ''<<''"
    and n: "str_find body ''>>'' i = None" by (auto simp: unterminated_at_def)
  from startswith_two [OF o] have il: "i + 2 \<le> length body" by simp
  with "1.prems"(1) have pl: "pos < length body" by simp
  from str_find_first [OF o "1.prems"(1)] il obtain start where
    s: "pos \<le> start" "start \<le> i" "str_find body ''<<'' pos = Some start" by auto
  show ?case
  proof (cases "str_find body ''>>'' start")
    case None
    with pl s show ?thesis by (subst split_body_from.simps) auto
  next
    case (Some e)
    have ei: "e + 2 \<le> i" using o n Some by (rule closer_before_opener) simp
    from "1.IH" [OF pl s(3) Some ei "1.prems"(2)] obtain start' where
      s': "e + 2 \<le> start'" "start' \<le> i"
      "snd (split_body_from body (e + 2)) = [''incomplete macro: '' @ drop start' body]"
      by blast
    from s(1) s'(1) str_find_bounds [OF Some] have "pos \<le> start'" by simp
    moreover have "snd (split_body_from body pos) = snd (split_body_from body (e + 2))"
      using pl s(3) Some
      by (subst split_body_from.simps) (simp add: split_beta del: split_body_from.simps)
    ultimately show ?thesis using s' by auto
  qed
qed

lemma find_links_from_reports:
  "pos \<le> i \<Longrightarrow> unterminated_at ''[['' '']]'' t i \<Longrightarrow>
     \<exists>start. pos \<le> start \<and> start \<le> i
        \<and> snd (find_links_from t pos) = [''incomplete link: '' @ drop start t]"
proof (induction t pos rule: find_links_from.induct)
  case (1 t pos)
  from "1.prems"(2) have o: "startswith (drop i t) ''[[''"
    and n: "str_find t '']]'' i = None" by (auto simp: unterminated_at_def)
  from startswith_two [OF o] have il: "i + 2 \<le> length t" by simp
  from str_find_first [OF o "1.prems"(1)] il obtain start where
    s: "pos \<le> start" "start \<le> i" "str_find t ''[['' pos = Some start" by auto
  show ?case
  proof (cases "str_find t '']]'' start")
    case None
    with s show ?thesis by (subst find_links_from.simps) auto
  next
    case (Some e)
    have ei: "e + 2 \<le> i" using o n Some by (rule closer_before_opener) simp
    from "1.IH" [OF s(3) Some ei "1.prems"(2)] obtain start' where
      s': "e + 2 \<le> start'" "start' \<le> i"
      "snd (find_links_from t (e + 2)) = [''incomplete link: '' @ drop start' t]"
      by blast
    from s(1) s'(1) str_find_bounds [OF Some] have "pos \<le> start'" by simp
    moreover have "snd (find_links_from t pos) = snd (find_links_from t (e + 2))"
      using s(3) Some
      by (subst find_links_from.simps) (simp add: split_beta del: find_links_from.simps)
    ultimately show ?thesis using s' by auto
  qed
qed

lemma split_body_from_cut:
  "pos \<le> length body \<Longrightarrow> split_body_from body pos = (segs, reports) \<Longrightarrow> reports \<noteq> [] \<Longrightarrow>
     \<exists>start. pos \<le> start \<and> reports = [''incomplete macro: '' @ drop start body]
        \<and> startswith (drop start body) ''<<''
        \<and> split_body_from (take start body) pos = (segs, [])"
proof (induction body pos arbitrary: segs reports rule: split_body_from.induct)
  case (1 body pos)
  show ?case
  proof (cases "pos < length body")
    case False
    with "1.prems" show ?thesis by simp
  next
    case True
    show ?thesis
    proof (cases "str_find body ''<<'' pos")
      case None
      with True "1.prems" show ?thesis by auto
    next
      case (Some start)
      then have ps: "pos \<le> start" and sl: "start + 2 \<le> length body"
        and sw: "startswith (drop start body) ''<<''"
        using str_find_bounds [of body "''<<''" pos start] str_find_at [of body "''<<''" pos start]
        by auto
      show ?thesis
      proof (cases "str_find body ''>>'' start")
        case None
        with True Some "1.prems"(2) have r: "reports = [''incomplete macro: '' @ drop start body]"
          and sg: "segs = (if pos < start then [slice body pos start] else [])" by auto
        have "split_body_from (take start body) pos = (segs, [])"
        proof (cases "pos < start")
          case False
          with sg sl show ?thesis by (subst split_body_from.simps) simp
        next
          case lt: True
          have "str_find (take start body) ''<<'' pos = None"
            using Some by (rule str_find_take_cut) simp_all
          moreover have "drop pos (take start body) = slice body pos start"
            by (simp add: slice_def drop_take)
          ultimately show ?thesis using lt sg sl
            by (subst split_body_from.simps) simp
        qed
        with r ps sw show ?thesis by blast
      next
        case e: (Some e)
        then have se: "start \<le> e" and el: "e + 2 \<le> length body"
          using str_find_bounds [of body "''>>''" start e] by auto
        obtain segs' reports' where rec: "split_body_from body (e + 2) = (segs', reports')"
          by (cases "split_body_from body (e + 2)")
        with True Some e "1.prems"(2)
        have segs: "segs = (if pos < start then [slice body pos start] else [])
                     @ slice body start (e + 2) # segs'"
          and reps: "reports = reports'" by auto
        from "1.IH" [OF True Some e el rec] reps "1.prems"(3) obtain start' where
          s': "e + 2 \<le> start'" "reports' = [''incomplete macro: '' @ drop start' body]"
          "startswith (drop start' body) ''<<''"
          "split_body_from (take start' body) (e + 2) = (segs', [])"
          by auto
        from startswith_two [OF s'(3)] have s'l: "start' + 2 \<le> length body" by simp
        have f1: "str_find (take start' body) ''<<'' pos = Some start"
          using Some by (rule str_find_take_found) (use se s'(1) in simp)
        have f2: "str_find (take start' body) ''>>'' start = Some e"
          using e by (rule str_find_take_found) (use s'(1) in simp)
        have f3: "slice (take start' body) pos start = slice body pos start"
          by (rule slice_take) (use se s'(1) in simp)
        have f4: "slice (take start' body) start (e + 2) = slice body start (e + 2)"
          by (rule slice_take) (use s'(1) in simp)
        have pl: "pos < length (take start' body)" using ps se s'(1) s'l by simp
        have "split_body_from (take start' body) pos = (segs, [])"
          by (subst split_body_from.simps)
            (simp only: pl f1 f2 f3 f4 s'(4) segs if_True option.case prod.case Let_def)
        moreover have "pos \<le> start'" using ps se s'(1) by simp
        ultimately show ?thesis using s' reps by blast
      qed
    qed
  qed
qed

lemma drop_inj: "a \<le> length s \<Longrightarrow> b \<le> length s \<Longrightarrow> drop a s = drop b s \<Longrightarrow> a = b"
proof -
  assume a: "a \<le> length s" "b \<le> length s" "drop a s = drop b s"
  then have "length (drop a s) = length (drop b s)" by simp
  with a(1,2) show ?thesis by simp
qed

section \<open>Claims about order_graph\<close>

text \<open>
  Claim C1. On every link graph (a dictionary of dictionaries, so keys and links are
  without repetition, whose link targets are all keys, as the graph builder and
  \<open>subgraph\<close> produce them), \<open>order_graph\<close> returns, and what it returns is a
  permutation of the keys: every key occurs exactly once, none is missing and none is
  added. Cycles and disconnected parts make no difference.
\<close>

theorem order_graph_permutation:
  assumes "wf_graph g" "closed_graph g"
  shows "\<exists>out. order_graph g = Inr out \<and> distinct out \<and> set out = set (keys g)
           \<and> mset out = mset (keys g) \<and> length out = length g"
proof -
  from assms(1) have dg: "distinct (keys g)" by (simp add: wf_graph_def)
  from build_link_from_spec [OF assms(2)] obtain lf0 where
    b: "build_link_from g = Inr lf0" and k0: "keys lf0 = keys g"
    and m0: "\<forall>l \<in> set (keys g). \<exists>w. map_of lf0 l = Some w \<and> set w = preds g l"
    by blast
  from dg k0 have "distinct (keys lf0)" by simp
  from seed_inv [OF this k0 m0] obtain lf where
    d: "del_all (seed_ready lf0) lf0 = Inr lf" and inv: "loop_inv g lf (seed_ready lf0) []"
    by blast
  from order_loop_perm [OF assms(1) inv] obtain ordered lf' where
    l: "order_loop g lf (seed_ready lf0) [] = Inr (ordered, lf')"
    and inv': "loop_inv g lf' [] ordered"
    by blast
  let ?out = "if lf' \<noteq> [] then ordered @ sort (keys lf') else ordered"
  have og: "order_graph g = Inr ?out"
    using b d l by (simp add: order_graph_def)
  from inv' have d': "distinct (keys lf' @ ordered)" and s': "set (keys lf' @ ordered) = set (keys g)"
    by (auto simp: loop_inv_def)
  have kn: "keys lf' = []" if "lf' = []" using that by (simp add: keys_def)
  have dout: "distinct ?out" using d' by auto
  have sout: "set ?out = set (keys g)" using s' kn by auto
  from dout sout dg have "mset ?out = mset (keys g)"
    by (metis set_eq_iff_mset_eq_distinct)
  moreover from this have "length ?out = length g"
    by (metis size_mset length_map keys_def)
  ultimately show ?thesis using og dout sout by blast
qed

text \<open>A graph with a two-node cycle that no cycle breaker opens, and an isolated node.\<close>

theorem order_graph_permutation_witness:
  "wf_graph [(''b'', [''a'']), (''a'', [''b'']), (''c'', [])]
   \<and> closed_graph [(''b'', [''a'']), (''a'', [''b'']), (''c'', [])]
   \<and> order_graph [(''b'', [''a'']), (''a'', [''b'']), (''c'', [])] = Inr [''c'', ''a'', ''b'']
   \<and> mset [''c'', ''a'', ''b''] = mset (keys [(''b'', [''a'']), (''a'', [''b'']), (''c'', [])])"
proof -
  have w: "wf_graph [(''b'', [''a'']), (''a'', [''b'']), (''c'', [])]"
    by (simp add: wf_graph_def keys_def)
  have c: "closed_graph [(''b'', [''a'']), (''a'', [''b'']), (''c'', [])]"
    by (simp add: closed_graph_def keys_def)
  have e: "order_graph [(''b'', [''a'']), (''a'', [''b'']), (''c'', [])] = Inr [''c'', ''a'', ''b'']"
    by code_simp
  from order_graph_permutation [OF w c] e w c show ?thesis by auto
qed

text \<open>
  The targets have to be keys: otherwise \<open>link_from[link]\<close> raises while the inverse
  graph is built.
\<close>

lemma order_graph_dangling_target: "order_graph [(''A'', [''B''])] = Inl KeyError"
  by code_simp

text \<open>
  Claim C2. On an acyclic link graph the result of \<open>order_graph\<close> respects every
  edge: for every edge from \<open>a\<close> to \<open>b\<close>, the name \<open>a\<close> stands strictly before \<open>b\<close>
  in the output (the output has no repetition, so the positions are unique).
\<close>

theorem order_graph_topological:
  assumes "wf_graph g" "closed_graph g" "acyclic (set (edges g))"
  shows "\<exists>out. order_graph g = Inr out \<and> distinct out
           \<and> (\<forall>a b. (a, b) \<in> set (edges g) \<longrightarrow> (\<exists>pre mid post. out = pre @ a # mid @ b # post))"
proof -
  from assms(1) have dg: "distinct (keys g)" by (simp add: wf_graph_def)
  from build_link_from_spec [OF assms(2)] obtain lf0 where
    b: "build_link_from g = Inr lf0" and k0: "keys lf0 = keys g"
    and m0: "\<forall>l \<in> set (keys g). \<exists>w. map_of lf0 l = Some w \<and> set w = preds g l"
    by blast
  from dg k0 have d0: "distinct (keys lf0)" by simp
  from seed_inv [OF this k0 m0] obtain lf where
    d: "del_all (seed_ready lf0) lf0 = Inr lf" and lf: "lf = filter (\<lambda>p. snd p \<noteq> []) lf0"
    and inv: "loop_inv g lf (seed_ready lf0) []"
    by blast
  have m0': "set w = preds g l" if "(l, w) \<in> set lf0" for l w
  proof -
    from that d0 have "map_of lf0 l = Some w" by (simp add: keys_def)
    moreover from this have "l \<in> set (keys g)" using map_of_Some_key [of lf0 l w] k0 by simp
    ultimately show ?thesis using m0 by auto
  qed
  have e1: "\<forall>l w. map_of lf l = Some w \<longrightarrow> w \<noteq> [] \<and> set w \<subseteq> preds g l - set []"
  proof (intro allI impI)
    fix l w assume "map_of lf l = Some w"
    then have "(l, w) \<in> set lf0" "w \<noteq> []" unfolding lf by (auto dest: map_of_SomeD)
    with m0' show "w \<noteq> [] \<and> set w \<subseteq> preds g l - set []" by auto
  qed
  have e2: "\<forall>a b. (a, b) \<in> set (edges g) \<and> b \<in> set (seed_ready lf0) \<longrightarrow> a \<in> set []"
  proof (intro allI impI, elim conjE)
    fix a b assume ab: "(a, b) \<in> set (edges g)" and "b \<in> set (seed_ready lf0)"
    then have "(b, []) \<in> set lf0" by (auto simp: seed_ready_def)
    with m0' have "preds g b = {}" by fastforce
    with ab show "a \<in> set []" by (auto simp: preds_def)
  qed
  from inv e1 e2 have "topo_inv g lf (seed_ready lf0) []"
    unfolding topo_inv_def by simp
  from order_loop_topo [OF assms(1,3) this] obtain out where
    l: "order_loop g lf (seed_ready lf0) [] = Inr (out, [])" and t: "topo_inv g [] [] out"
    by blast
  have og: "order_graph g = Inr out" using b d l by (simp add: order_graph_def)
  from t have dout: "distinct out" and sout: "set out = set (keys g)"
    and e3: "\<forall>a b. (a, b) \<in> set (edges g) \<and> b \<in> set out
           \<longrightarrow> (\<exists>pre mid post. out = pre @ a # mid @ b # post)"
    by (auto simp: topo_inv_def loop_inv_def keys_def)
  have "\<exists>pre mid post. out = pre @ a # mid @ b # post" if "(a, b) \<in> set (edges g)" for a b
  proof -
    from that obtain ls where "(a, ls) \<in> set g" "b \<in> set ls" by (auto simp: edges_iff)
    with assms(2) have "b \<in> set (keys g)" by (force simp: closed_graph_def)
    with sout e3 that show ?thesis by blast
  qed
  with og dout show ?thesis by blast
qed

text \<open>A graph in which \<open>B\<close> has to wait for both \<open>A\<close> and \<open>C\<close>.\<close>

theorem order_graph_topological_witness:
  "wf_graph [(''A'', [''C'', ''B'']), (''B'', []), (''C'', [''B''])]
   \<and> closed_graph [(''A'', [''C'', ''B'']), (''B'', []), (''C'', [''B''])]
   \<and> acyclic (set (edges [(''A'', [''C'', ''B'']), (''B'', []), (''C'', [''B''])]))
   \<and> order_graph [(''A'', [''C'', ''B'']), (''B'', []), (''C'', [''B''])] = Inr [''A'', ''C'', ''B'']
   \<and> (\<exists>out. order_graph [(''A'', [''C'', ''B'']), (''B'', []), (''C'', [''B''])] = Inr out
         \<and> distinct out
         \<and> (\<forall>a b. (a, b) \<in> set (edges [(''A'', [''C'', ''B'']), (''B'', []), (''C'', [''B''])])
               \<longrightarrow> (\<exists>pre mid post. out = pre @ a # mid @ b # post)))"
proof -
  let ?g = "[(''A'', [''C'', ''B'']), (''B'', []), (''C'', [''B''])]"
  have h1: "wf_graph ?g" by (simp add: wf_graph_def keys_def)
  have h2: "closed_graph ?g" by (simp add: closed_graph_def keys_def)
  have h3: "acyclic (set (edges ?g))"
    by (simp add: edges_def rtrancl_insert wf_acyclic)
  have e: "order_graph ?g = Inr [''A'', ''C'', ''B'']" by code_simp
  show ?thesis
    by (rule conjI h1 h2 h3 e order_graph_topological [OF h1 h2 h3])+
qed

text \<open>
  Claim C3. When the stack is empty, the first of the four cycle breakers (in the order
  of the source) that is still a key of \<open>link_from\<close> becomes the stack and its entry of
  \<open>link_from\<close>, the names it was still waiting for, is dropped. When none of them is a
  key, the loop ends with the names ordered so far, and \<open>order_graph\<close> appends the keys
  still in \<open>link_from\<close> in the order of \<open>sorted\<close>.
\<close>

theorem order_graph_cycle_breaking:
  "cycle_breakers =
     [''Makeover Options'', ''Rosalind actions'',
      ''Ask Billy what he and Mr. Anderson talked about last night.'', ''Go to the arcade.'']
   \<and> (cycle_breakers = pre @ n # post \<and> n \<in> set (keys lf) \<and> (\<forall>m \<in> set pre. m \<notin> set (keys lf))
        \<longrightarrow> order_loop g lf [] ordered = order_loop g (AList.delete n lf) [n] ordered
          \<and> map_of (AList.delete n lf) n = None)
   \<and> ((\<forall>m \<in> set cycle_breakers. m \<notin> set (keys lfn))
        \<longrightarrow> order_loop g lfn [] ordered = Inr (ordered, lfn))
   \<and> (build_link_from g = Inr built \<and> del_all (seed_ready built) built = Inr seeded
        \<and> order_loop g seeded (seed_ready built) [] = Inr (ordered', lf')
        \<longrightarrow> order_graph g = Inr (ordered' @ sort (keys lf'))
          \<and> sorted (sort (keys lf')) \<and> mset (sort (keys lf')) = mset (keys lf'))"
proof (intro conjI impI)
  show "cycle_breakers =
     [''Makeover Options'', ''Rosalind actions'',
      ''Ask Billy what he and Mr. Anderson talked about last night.'', ''Go to the arcade.'']"
    by (simp add: cycle_breakers_def)
next
  assume a: "cycle_breakers = pre @ n # post \<and> n \<in> set (keys lf)
    \<and> (\<forall>m \<in> set pre. m \<notin> set (keys lf))"
  then have "find (\<lambda>nm. nm \<in> set (keys lf)) cycle_breakers = Some n"
    using find_first [of cycle_breakers pre n post "\<lambda>nm. nm \<in> set (keys lf)"] by blast
  then have "refill lf [] = Some ([n], AList.delete n lf)"
    by (simp add: refill_def)
  moreover have "refill (AList.delete n lf) [n] = Some ([n], AList.delete n lf)"
    by (simp add: refill_def)
  ultimately show "order_loop g lf [] ordered = order_loop g (AList.delete n lf) [n] ordered"
    by simp
  show "map_of (AList.delete n lf) n = None"
    by (simp add: delete_conv')
next
  assume "\<forall>m \<in> set cycle_breakers. m \<notin> set (keys lfn)"
  then have "refill lfn [] = None" by (simp add: refill_None_iff)
  then show "order_loop g lfn [] ordered = Inr (ordered, lfn)" by simp
next
  assume a: "build_link_from g = Inr built \<and> del_all (seed_ready built) built = Inr seeded
        \<and> order_loop g seeded (seed_ready built) [] = Inr (ordered', lf')"
  have "keys lf' = []" if "lf' = []" using that by (simp add: keys_def)
  then show "order_graph g = Inr (ordered' @ sort (keys lf'))"
    using a by (auto simp: order_graph_def)
  show "sorted (sort (keys lf'))" by simp
  show "mset (sort (keys lf')) = mset (keys lf')" by simp
qed

text \<open>
  Two cycles: the one through \<open>Go to the arcade.\<close> is opened there, the one between
  \<open>b\<close> and \<open>a\<close> has no breaker and is appended in sorted order.
\<close>

theorem order_graph_cycle_breaking_witness:
  "cycle_breakers = [''Makeover Options'', ''Rosalind actions'',
      ''Ask Billy what he and Mr. Anderson talked about last night.''] @ ''Go to the arcade.'' # []
   \<and> ''Go to the arcade.'' \<in> set (keys [(''Go to the arcade.'', [''x'']), (''x'', [''Go to the arcade.'']),
          (''b'', [''a'']), (''a'', [''b''])])
   \<and> order_loop [(''Go to the arcade.'', [''x'']), (''x'', [''Go to the arcade.'']),
          (''b'', [''a'']), (''a'', [''b''])]
        [(''Go to the arcade.'', [''x'']), (''x'', [''Go to the arcade.'']),
          (''b'', [''a'']), (''a'', [''b''])] [] []
      = order_loop [(''Go to the arcade.'', [''x'']), (''x'', [''Go to the arcade.'']),
          (''b'', [''a'']), (''a'', [''b''])]
        [(''x'', [''Go to the arcade.'']), (''b'', [''a'']), (''a'', [''b''])] [''Go to the arcade.''] []
   \<and> order_loop [(''Go to the arcade.'', [''x'']), (''x'', [''Go to the arcade.'']),
          (''b'', [''a'']), (''a'', [''b''])]
        [(''b'', [''a'']), (''a'', [''b''])] [] [''Go to the arcade.'', ''x'']
      = Inr ([''Go to the arcade.'', ''x''], [(''b'', [''a'']), (''a'', [''b''])])
   \<and> order_graph [(''Go to the arcade.'', [''x'']), (''x'', [''Go to the arcade.'']),
          (''b'', [''a'']), (''a'', [''b''])]
      = Inr [''Go to the arcade.'', ''x'', ''a'', ''b'']"
proof -
  let ?g = "[(''Go to the arcade.'', [''x'']), (''x'', [''Go to the arcade.'']),
          (''b'', [''a'']), (''a'', [''b''])]"
  let ?pre = "[''Makeover Options'', ''Rosalind actions'',
      ''Ask Billy what he and Mr. Anderson talked about last night.'']"
  have h1: "cycle_breakers = ?pre @ ''Go to the arcade.'' # []"
    by (simp add: cycle_breakers_def)
  have h2: "''Go to the arcade.'' \<in> set (keys ?g)" by (simp add: keys_def)
  have h3: "\<forall>m \<in> set ?pre. m \<notin> set (keys ?g)" by (simp add: keys_def)
  have h4: "\<forall>m \<in> set cycle_breakers. m \<notin> set (keys [(''b'', [''a'']), (''a'', [''b''])])"
    by (simp add: cycle_breakers_def keys_def)
  have h5: "build_link_from ?g = Inr ?g" by code_simp
  have h6: "del_all (seed_ready ?g) ?g = Inr ?g" by code_simp
  have h7: "order_loop ?g ?g (seed_ready ?g) []
      = Inr ([''Go to the arcade.'', ''x''], [(''b'', [''a'']), (''a'', [''b''])])"
    by code_simp
  have s: "sort (keys [(''b'', [''a'']), (''a'', [''b''])]) = [''a'', ''b'']" by code_simp
  have d: "AList.delete ''Go to the arcade.'' ?g
      = [(''x'', [''Go to the arcade.'']), (''b'', [''a'']), (''a'', [''b''])]" by simp
  note t = order_graph_cycle_breaking [where pre = ?pre and n = "''Go to the arcade.''"
      and post = "[]" and lf = ?g and g = ?g and lfn = "[(''b'', [''a'']), (''a'', [''b''])]"
      and built = ?g and seeded = ?g and ordered' = "[''Go to the arcade.'', ''x'']"
      and lf' = "[(''b'', [''a'']), (''a'', [''b''])]"]
  from t [where ordered = "[]"] t [where ordered = "[''Go to the arcade.'', ''x'']"]
    h1 h2 h3 h4 h5 h6 h7 s d
  show ?thesis by simp
qed






section \<open>Claims about subgraph\<close>

text \<open>
  Claim C5 says that a limit node that is reached appears as a key of the result but is
  not expanded. In the source the links into limit nodes are removed before they are
  followed, so a limit node that a discovered node links to is not in the result at all
  (first graph: \<open>S\<close> links to the limit \<open>X\<close>); and a limit node that is named as a start
  is expanded like every other start (second graph: \<open>E\<close> is found through \<open>X\<close>).
\<close>

theorem subgraph_limit_node_counterexample:
  "subgraph [(''S'', [''M'', ''X'']), (''M'', [''E'']), (''X'', [''E'']), (''E'', [])] [''S''] [''X'']
     = Inr [(''S'', [''M'']), (''M'', [''E'']), (''E'', [])]
   \<and> ''X'' \<notin> set (keys [(''S'', [''M'']), (''M'', [''E'']), (''E'', []::links)])
   \<and> subgraph [(''X'', [''E'']), (''E'', [])] [''X''] [''X''] = Inr [(''X'', [''E'']), (''E'', [])]
   \<and> ''E'' \<in> set (keys [(''X'', [''E'']), (''E'', []::links)])"
proof (intro conjI)
  show "subgraph [(''S'', [''M'', ''X'']), (''M'', [''E'']), (''X'', [''E'']), (''E'', [])]
      [''S''] [''X''] = Inr [(''S'', [''M'']), (''M'', [''E'']), (''E'', [])]"
    by code_simp
  show "''X'' \<notin> set (keys [(''S'', [''M'']), (''M'', [''E'']), (''E'', []::links)])"
    by (simp add: keys_def)
  show "subgraph [(''X'', [''E'']), (''E'', [])] [''X''] [''X''] = Inr [(''X'', [''E'']), (''E'', [])]"
    by code_simp
  show "''E'' \<in> set (keys [(''X'', [''E'']), (''E'', []::links)])"
    by (simp add: keys_def)
qed

text \<open>
  Claim C5, amended. Every node of the result is recorded with its outgoing links
  without the targets named in \<open>limits\<close>. Because these targets are removed before they
  are followed, a node named in \<open>limits\<close> is never discovered through a link: it is a
  key of the result only when it is named in \<open>starts\<close>. Every start is a key of the
  result, with its limit-filtered links like every other node.
\<close>

theorem subgraph_limits:
  assumes "subgraph g starts limits = Inr r"
  shows "(\<forall>n ls. (n, ls) \<in> set r
            \<longrightarrow> (\<exists>full. map_of g n = Some full \<and> ls = filter (\<lambda>l. l \<notin> set limits) full))
         \<and> (\<forall>n \<in> set (keys r). n \<in> set limits \<longrightarrow> n \<in> set starts)
         \<and> set starts \<subseteq> set (keys r)"
proof -
  from subgraph_inv [OF assms] have inv: "sub_inv g starts limits [] r" .
  have i2: "\<forall>n ls. (n, ls) \<in> set r
         \<longrightarrow> (\<exists>full. map_of g n = Some full \<and> ls = filter_links limits full)"
    using inv unfolding sub_inv_def keys_def by simp
  have i3: "\<forall>n. n \<in> set (keys r) \<and> n \<in> set limits \<longrightarrow> n \<in> set starts"
    using inv unfolding sub_inv_def keys_def by simp
  have i4: "set starts \<subseteq> set (keys r)"
    using inv unfolding sub_inv_def keys_def by simp
  from i2 have "\<forall>n ls. (n, ls) \<in> set r
            \<longrightarrow> (\<exists>full. map_of g n = Some full \<and> ls = filter (\<lambda>l. l \<notin> set limits) full)"
    by (simp add: filter_links_def)
  moreover from i3 have "\<forall>n \<in> set (keys r). n \<in> set limits \<longrightarrow> n \<in> set starts"
    by blast
  moreover note i4
  ultimately show ?thesis by blast
qed

text \<open>\<open>X\<close> is a start and a limit, and the target of a link of \<open>E\<close>.\<close>

theorem subgraph_limits_witness:
  "subgraph [(''X'', [''E'']), (''E'', [''X'', ''F'']), (''F'', [])] [''X''] [''X'']
     = Inr [(''X'', [''E'']), (''E'', [''F'']), (''F'', [])]
   \<and> (\<exists>full. map_of [(''X'', [''E'']), (''E'', [''X'', ''F'']), (''F'', [])] ''E'' = Some full
         \<and> [''F''] = filter (\<lambda>l. l \<notin> set [''X'']) full)
   \<and> set [''X''] \<subseteq> set (keys [(''X'', [''E'']), (''E'', [''F'']), (''F'', [])])"
proof -
  have e: "subgraph [(''X'', [''E'']), (''E'', [''X'', ''F'']), (''F'', [])] [''X''] [''X'']
     = Inr [(''X'', [''E'']), (''E'', [''F'']), (''F'', [])]"
    by code_simp
  note t = subgraph_limits [OF e]
  have m: "(''E'', [''F'']) \<in> set [(''X'', [''E'']), (''E'', [''F'']), (''F'', [])]" by simp
  show ?thesis
    by (rule conjI e t [THEN conjunct1, THEN spec, THEN spec, THEN mp, OF m]
          t [THEN conjunct2, THEN conjunct2])+
qed

text \<open>
  Claim C6. For a link graph whose edge sets only mention keys of the graph, \<open>subgraph\<close>
  with all keys as starts and no limits returns the graph itself: the same keys (even
  in the same order), each with the same edge set.
\<close>

theorem subgraph_round_trip:
  assumes "wf_graph g" "closed_graph g"
  shows "subgraph g (keys g) [] = Inr g"
proof -
  from assms(1) have dg: "distinct (keys g)" by (simp add: wf_graph_def)
  have "\<forall>n ls. (n, ls) \<in> set g \<longrightarrow> map_of g n = Some ls"
    using dg by (simp add: keys_def)
  with dg have "init_remaining g [] (keys g) [] = Inr ([] @ g)"
    by (intro init_remaining_all) (simp_all add: keys_def)
  moreover have "subgraph_loop g [] g [] = Inr g"
    using dg assms(2) by (rule subgraph_loop_all) simp
  ultimately show ?thesis by (simp add: subgraph_def)
qed

text \<open>A graph with a cycle, a self link and a node without links.\<close>

theorem subgraph_round_trip_witness:
  "wf_graph [(''a'', [''b'', ''c'']), (''b'', [''a'']), (''c'', [''c'']), (''d'', [])]
   \<and> closed_graph [(''a'', [''b'', ''c'']), (''b'', [''a'']), (''c'', [''c'']), (''d'', [])]
   \<and> subgraph [(''a'', [''b'', ''c'']), (''b'', [''a'']), (''c'', [''c'']), (''d'', [])]
        (keys [(''a'', [''b'', ''c'']), (''b'', [''a'']), (''c'', [''c'']), (''d'', [])]) []
      = Inr [(''a'', [''b'', ''c'']), (''b'', [''a'']), (''c'', [''c'']), (''d'', [])]"
proof -
  let ?g = "[(''a'', [''b'', ''c'']), (''b'', [''a'']), (''c'', [''c'']), (''d'', [])]"
  have h1: "wf_graph ?g" by (simp add: wf_graph_def keys_def)
  have h2: "closed_graph ?g" by (simp add: closed_graph_def keys_def)
  show ?thesis
    by (rule conjI h1 h2 subgraph_round_trip [OF h1 h2])+
qed

text \<open>
  Claim C10. Whenever \<open>subgraph\<close> returns, the mapping it returns is closed under its
  own edges: every target in a returned edge set is a key of the returned mapping, and
  no name of \<open>limits\<close> occurs in a returned edge set.
\<close>

theorem subgraph_closed:
  assumes "subgraph g starts limits = Inr r"
  shows "closed_graph r \<and> (\<forall>ls \<in> set (map snd r). \<forall>l \<in> set ls. l \<notin> set limits)"
proof -
  from subgraph_inv [OF assms] have inv: "sub_inv g starts limits [] r" .
  have i1: "\<forall>n ls l. (n, ls) \<in> set r \<and> l \<in> set ls \<longrightarrow> l \<in> set (keys r)"
    using inv unfolding sub_inv_def keys_def by simp
  have i2: "\<forall>n ls. (n, ls) \<in> set r
         \<longrightarrow> (\<exists>full. map_of g n = Some full \<and> ls = filter_links limits full)"
    using inv unfolding sub_inv_def keys_def by simp
  have "closed_graph r"
    unfolding closed_graph_def using i1 by auto
  moreover have "\<forall>ls \<in> set (map snd r). \<forall>l \<in> set ls. l \<notin> set limits"
  proof (intro ballI)
    fix ls l assume "ls \<in> set (map snd r)" "l \<in> set ls"
    then obtain n where "(n, ls) \<in> set r" by auto
    with i2 obtain full where "ls = filter_links limits full" by auto
    with \<open>l \<in> set ls\<close> show "l \<notin> set limits" by (simp add: filter_links_def)
  qed
  ultimately show ?thesis ..
qed

text \<open>The example of the specification: \<open>X\<close> is a limit, \<open>S\<close> links to it.\<close>

theorem subgraph_closed_witness:
  "subgraph [(''S'', [''M'', ''X'']), (''M'', [''E'']), (''X'', [''E'']), (''E'', [])] [''S''] [''X'']
     = Inr [(''S'', [''M'']), (''M'', [''E'']), (''E'', [])]
   \<and> closed_graph [(''S'', [''M'']), (''M'', [''E'']), (''E'', [])]
   \<and> ''X'' \<notin> set (concat (map snd [(''S'', [''M'']), (''M'', [''E'']), (''E'', [])]))"
proof -
  have e: "subgraph [(''S'', [''M'', ''X'']), (''M'', [''E'']), (''X'', [''E'']), (''E'', [])]
      [''S''] [''X''] = Inr [(''S'', [''M'']), (''M'', [''E'']), (''E'', [])]"
    by code_simp
  note t = subgraph_closed [OF e]
  have n: "''X'' \<notin> set (concat (map snd [(''S'', [''M'']), (''M'', [''E'']), (''E'', [])]))"
    using t [THEN conjunct2] by simp
  show ?thesis
    by (rule conjI e t [THEN conjunct1] n)+
qed

section \<open>Claims about link extraction\<close>

text \<open>
  Claim C7 says that an unterminated link opener is reported without raising, and that
  no link is extracted from the rest of the body after it. In the source
  \<open>find_links_in_text\<close> is called on one text segment, so its \<open>return\<close> ends the scan
  of that segment only: the first body has no \<open>]]\<close> at all, and the display macro after
  the opener still yields its target. Inside a macro span \<open>[[\<close> is not scanned as a
  link opener at all: the second body, a click macro with an unquoted argument, raises.
\<close>

theorem unterminated_link_counterexample:
  \<open>str_find ''[[A <<display "X">>'' '']]'' 0 = None
   \<and> find_links [''[[A <<display "X">>''] = Inr ([''X''], [''incomplete link: [[A ''])
   \<and> str_find ''<<click [[A>>'' '']]'' 0 = None
   \<and> find_links [''<<click [[A>>''] = Inl AssertionError\<close>
proof (intro conjI)
  show \<open>str_find ''[[A <<display "X">>'' '']]'' 0 = None\<close> by code_simp
  show \<open>find_links [''[[A <<display "X">>''] = Inr ([''X''], [''incomplete link: [[A ''])\<close>
    by code_simp
  show \<open>str_find ''<<click [[A>>'' '']]'' 0 = None\<close> by code_simp
  show \<open>find_links [''<<click [[A>>''] = Inl AssertionError\<close> by code_simp
qed

text \<open>
  Claim C7, amended. A macro opener with no later \<open>>>\<close> is reported and ends the scan
  of the body at the first such opener: the segments are exactly the text before it,
  and link extraction yields what it yields on that text alone, plus the report.
  Outside the macro spans, a link opener with no later \<open>]]\<close> in its text segment is
  reported and ends the scan of that text segment at the first such opener: the links
  of the segment are those of the text before the opener. Nothing else is reported.
  The segments after a text segment are still scanned and yield their links, and link
  extraction raises only when a macro segment raises.
\<close>

theorem unterminated_spans:
  "(unterminated_at ''<<'' ''>>'' body i \<longrightarrow>
        (\<exists>start. start \<le> i \<and> unterminated_at ''<<'' ''>>'' body start
            \<and> snd (split_body body) = [''incomplete macro: '' @ drop start body]
            \<and> concat (fst (split_body body)) = take start body
            \<and> split_body (take start body) = (fst (split_body body), [])))
   \<and> (unterminated_at ''<<'' ''>>'' (join_lines ls) k \<longrightarrow>
        (\<exists>start. start \<le> k
            \<and> find_links ls =
                (case find_links [take start (join_lines ls)] of
                   Inl e \<Rightarrow> Inl e
                 | Inr (l, r) \<Rightarrow>
                     Inr (l, r @ [''incomplete macro: '' @ drop start (join_lines ls)]))))
   \<and> (split_body body = (segs, reports) \<longrightarrow>
        (reports = [] \<and> concat segs = body)
      \<or> (\<exists>start. reports = [''incomplete macro: '' @ drop start body]
            \<and> concat segs = take start body
            \<and> startswith (drop start body) ''<<'' \<and> str_find body ''>>'' start = None))
   \<and> (unterminated_at ''[['' '']]'' t j \<longrightarrow>
        (\<exists>start. start \<le> j \<and> unterminated_at ''[['' '']]'' t start
            \<and> find_links_in_text t =
                (fst (find_links_in_text (take start t)), [''incomplete link: '' @ drop start t])
            \<and> snd (find_links_in_text (take start t)) = []))
   \<and> (find_links_in_text t = (links, treports) \<longrightarrow>
        treports = []
      \<or> (\<exists>start. treports = [''incomplete link: '' @ drop start t]
            \<and> startswith (drop start t) ''[['' \<and> str_find t '']]'' start = None
            \<and> find_links_in_text (take start t) = (links, [])))
   \<and> (links_of_segments xs = Inr (lx, rx) \<and> links_of_segments ys = Inr (ly, ry) \<longrightarrow>
        links_of_segments (xs @ ys) = Inr (lx @ ly, rx @ ry))
   \<and> (find_links ms = Inl e \<longrightarrow>
        (\<exists>seg \<in> set (fst (split_body (join_lines ms))).
            startswith seg ''<<'' \<and> find_links_in_macro seg = Inl e))"
proof -
  have macro: "\<exists>start. start \<le> i \<and> unterminated_at ''<<'' ''>>'' b start
            \<and> snd (split_body b) = [''incomplete macro: '' @ drop start b]
            \<and> concat (fst (split_body b)) = take start b
            \<and> split_body (take start b) = (fst (split_body b), [])"
    if u: "unterminated_at ''<<'' ''>>'' b i" for b i
  proof -
    obtain sg rp where sb: "split_body_from b 0 = (sg, rp)" by (cases "split_body_from b 0")
    from u have "startswith (drop i b) ''<<''" by (simp add: unterminated_at_def)
    from startswith_two [OF this] have il: "i + 2 \<le> length b" by simp
    from split_body_from_reports [OF _ u, of 0] sb obtain start where
      s: "start \<le> i" "rp = [''incomplete macro: '' @ drop start b]" by auto
    then have ne: "rp \<noteq> []" by simp
    from split_body_from_spec [OF _ sb] ne obtain sa where
      a: "rp = [''incomplete macro: '' @ drop sa b]" "concat sg = slice b 0 sa"
      "startswith (drop sa b) ''<<''" "str_find b ''>>'' sa = None" by auto
    from split_body_from_cut [OF _ sb ne] obtain sc where
      c: "rp = [''incomplete macro: '' @ drop sc b]" "startswith (drop sc b) ''<<''"
      "split_body_from (take sc b) 0 = (sg, [])" by auto
    from startswith_two [OF a(3)] have al: "sa \<le> length b" by simp
    from startswith_two [OF c(2)] have cl: "sc \<le> length b" by simp
    from s il have sl: "start \<le> length b" by simp
    from s(2) a(1) have "drop start b = drop sa b" by simp
    with sl al have sa: "sa = start" using drop_inj by blast
    from s(2) c(1) have "drop start b = drop sc b" by simp
    with sl cl have sc: "sc = start" using drop_inj by blast
    from a c(3) s sb show ?thesis
      unfolding sa sc by (auto simp: split_body_def unterminated_at_def slice_def)
  qed
  have link: "\<exists>start. start \<le> j \<and> unterminated_at ''[['' '']]'' t start
            \<and> find_links_in_text t =
                (fst (find_links_in_text (take start t)), [''incomplete link: '' @ drop start t])
            \<and> snd (find_links_in_text (take start t)) = []"
    if u: "unterminated_at ''[['' '']]'' t j"
  proof -
    obtain lk rp where fl: "find_links_from t 0 = (lk, rp)" by (cases "find_links_from t 0")
    from u have "startswith (drop j t) ''[[''" by (simp add: unterminated_at_def)
    from startswith_two [OF this] have jl: "j + 2 \<le> length t" by simp
    from find_links_from_reports [OF _ u, of 0] fl obtain start where
      s: "start \<le> j" "rp = [''incomplete link: '' @ drop start t]" by auto
    then have ne: "rp \<noteq> []" by simp
    from find_links_from_spec [OF fl] ne obtain sa where
      a: "rp = [''incomplete link: '' @ drop sa t]" "startswith (drop sa t) ''[[''"
      "str_find t '']]'' sa = None" "find_links_from (take sa t) 0 = (lk, [])" by auto
    from startswith_two [OF a(2)] have al: "sa \<le> length t" by simp
    from s jl have sl: "start \<le> length t" by simp
    from s(2) a(1) have "drop start t = drop sa t" by simp
    with sl al have sa: "sa = start" using drop_inj by blast
    from a s fl show ?thesis
      unfolding sa by (auto simp: find_links_in_text_def unterminated_at_def)
  qed
  have ends: "\<exists>start. start \<le> k
            \<and> find_links ls =
                (case find_links [take start (join_lines ls)] of
                   Inl e \<Rightarrow> Inl e
                 | Inr (l, r) \<Rightarrow>
                     Inr (l, r @ [''incomplete macro: '' @ drop start (join_lines ls)]))"
    if u: "unterminated_at ''<<'' ''>>'' (join_lines ls) k"
  proof -
    from macro [OF u] obtain start where s: "start \<le> k"
      "snd (split_body (join_lines ls)) = [''incomplete macro: '' @ drop start (join_lines ls)]"
      "split_body (take start (join_lines ls)) = (fst (split_body (join_lines ls)), [])"
      by blast
    obtain sg rp where sb: "split_body (join_lines ls) = (sg, rp)"
      by (cases "split_body (join_lines ls)")
    with s have rp: "rp = [''incomplete macro: '' @ drop start (join_lines ls)]"
      and cut: "split_body (take start (join_lines ls)) = (sg, [])" by simp_all
    have "find_links ls =
        (case find_links [take start (join_lines ls)] of
           Inl e \<Rightarrow> Inl e
         | Inr (l, r) \<Rightarrow>
             Inr (l, r @ [''incomplete macro: '' @ drop start (join_lines ls)]))"
      unfolding find_links_def using sb rp cut
      by (cases "links_of_segments sg") auto
    with s(1) show ?thesis by blast
  qed
  have back_macro: "(reports = [] \<and> concat segs = body)
      \<or> (\<exists>start. reports = [''incomplete macro: '' @ drop start body]
            \<and> concat segs = take start body
            \<and> startswith (drop start body) ''<<'' \<and> str_find body ''>>'' start = None)"
    if "split_body body = (segs, reports)"
  proof -
    from that have "split_body_from body 0 = (segs, reports)" by (simp add: split_body_def)
    from split_body_from_spec [OF _ this] show ?thesis by (auto simp: slice_def)
  qed
  have back_link: "treports = []
      \<or> (\<exists>start. treports = [''incomplete link: '' @ drop start t]
            \<and> startswith (drop start t) ''[['' \<and> str_find t '']]'' start = None
            \<and> find_links_in_text (take start t) = (links, []))"
    if "find_links_in_text t = (links, treports)"
  proof -
    from that have "find_links_from t 0 = (links, treports)"
      by (simp add: find_links_in_text_def)
    from find_links_from_spec [OF this] show ?thesis
      by (auto simp: find_links_in_text_def)
  qed
  have raise: "\<exists>seg \<in> set (fst (split_body (join_lines ms))).
            startswith seg ''<<'' \<and> find_links_in_macro seg = Inl e"
    if a: "find_links ms = Inl e"
  proof -
    obtain sg rp where s: "split_body (join_lines ms) = (sg, rp)"
      by (cases "split_body (join_lines ms)")
    with a have "links_of_segments sg = Inl e"
      by (auto simp: find_links_def split: sum.splits prod.splits)
    from links_of_segments_error [OF this] s show ?thesis by simp
  qed
  show ?thesis
    using macro [of body i] ends back_macro link back_link raise
      links_of_segments_append [of xs lx rx ys ly ry]
    by (intro conjI impI) blast+
qed

text \<open>
  A body with a link, an unterminated macro and a link after it; a text with a link and
  an unterminated link; a text segment with an unterminated link before a macro; and
  a body with a malformed macro.
\<close>

theorem unterminated_spans_witness:
  \<open>unterminated_at ''<<'' ''>>'' ''[[A]] <<foo [[B]]'' 6
   \<and> split_body ''[[A]] <<foo [[B]]'' = ([''[[A]] ''], [''incomplete macro: <<foo [[B]]''])
   \<and> find_links [''[[A]] <<foo [[B]]''] = Inr ([''A''], [''incomplete macro: <<foo [[B]]''])
   \<and> (\<exists>start. start \<le> 6 \<and> unterminated_at ''<<'' ''>>'' ''[[A]] <<foo [[B]]'' start
         \<and> snd (split_body ''[[A]] <<foo [[B]]'')
             = [''incomplete macro: '' @ drop start ''[[A]] <<foo [[B]]'']
         \<and> concat (fst (split_body ''[[A]] <<foo [[B]]'')) = take start ''[[A]] <<foo [[B]]''
         \<and> split_body (take start ''[[A]] <<foo [[B]]'')
             = (fst (split_body ''[[A]] <<foo [[B]]''), []))
   \<and> unterminated_at ''[['' '']]'' ''[[a]] [[b'' 6
   \<and> find_links_in_text ''[[a]] [[b'' = ([''a''], [''incomplete link: [[b''])
   \<and> (\<exists>start. start \<le> 6 \<and> unterminated_at ''[['' '']]'' ''[[a]] [[b'' start
         \<and> find_links_in_text ''[[a]] [[b''
             = (fst (find_links_in_text (take start ''[[a]] [[b'')),
                [''incomplete link: '' @ drop start ''[[a]] [[b''])
         \<and> snd (find_links_in_text (take start ''[[a]] [[b'')) = [])
   \<and> links_of_segments [''[[A ''] = Inr ([], [''incomplete link: [[A ''])
   \<and> links_of_segments [''<<display "X">>''] = Inr ([''X''], [])
   \<and> links_of_segments ([''[[A ''] @ [''<<display "X">>''])
       = Inr ([] @ [''X''], [''incomplete link: [[A ''] @ [])
   \<and> find_links [''<<display X>>''] = Inl AssertionError
   \<and> (\<exists>seg \<in> set (fst (split_body (join_lines [''<<display X>>'']))).
         startswith seg ''<<'' \<and> find_links_in_macro seg = Inl AssertionError)\<close>
proof -
  have u1: \<open>unterminated_at ''<<'' ''>>'' ''[[A]] <<foo [[B]]'' 6\<close> by code_simp
  have u1': \<open>unterminated_at ''<<'' ''>>'' (join_lines [''[[A]] <<foo [[B]]'']) 6\<close>
    using u1 by simp
  have h1: \<open>split_body ''[[A]] <<foo [[B]]''
      = ([''[[A]] ''], [''incomplete macro: <<foo [[B]]''])\<close>
    by code_simp
  have f1: \<open>find_links [''[[A]] <<foo [[B]]'']
      = Inr ([''A''], [''incomplete macro: <<foo [[B]]''])\<close>
    by code_simp
  have u2: \<open>unterminated_at ''[['' '']]'' ''[[a]] [[b'' 6\<close> by code_simp
  have h2: \<open>find_links_in_text ''[[a]] [[b'' = ([''a''], [''incomplete link: [[b''])\<close>
    by code_simp
  have h3: \<open>links_of_segments [''[[A ''] = Inr ([], [''incomplete link: [[A ''])\<close>
    by code_simp
  have h4: \<open>links_of_segments [''<<display "X">>''] = Inr ([''X''], [])\<close>
    by code_simp
  have h5: \<open>find_links [''<<display X>>''] = Inl AssertionError\<close>
    by code_simp
  note t = unterminated_spans [where body = \<open>''[[A]] <<foo [[B]]''\<close> and i = 6
      and ls = \<open>[''[[A]] <<foo [[B]]'']\<close> and k = 6
      and segs = \<open>[''[[A]] '']\<close> and reports = \<open>[''incomplete macro: <<foo [[B]]'']\<close>
      and t = \<open>''[[a]] [[b''\<close> and j = 6
      and links = \<open>[''a'']\<close> and treports = \<open>[''incomplete link: [[b'']\<close>
      and xs = \<open>[''[[A '']\<close> and lx = \<open>[]\<close> and rx = \<open>[''incomplete link: [[A '']\<close>
      and ys = \<open>[''<<display "X">>'']\<close> and ly = \<open>[''X'']\<close> and ry = \<open>[]\<close>
      and ms = \<open>[''<<display X>>'']\<close> and e = AssertionError]
  note c1 = t [THEN conjunct1, THEN mp, OF u1]
  note c4 = t [THEN conjunct2, THEN conjunct2, THEN conjunct2, THEN conjunct1, THEN mp, OF u2]
  note c6 = t [THEN conjunct2, THEN conjunct2, THEN conjunct2, THEN conjunct2, THEN conjunct2,
      THEN conjunct1, THEN mp, OF conjI [OF h3 h4]]
  note c7 = t [THEN conjunct2, THEN conjunct2, THEN conjunct2, THEN conjunct2, THEN conjunct2,
      THEN conjunct2, THEN mp, OF h5]
  show ?thesis
    by (rule conjI u1 h1 f1 c1 u2 h2 c4 h3 h4 c6 h5 c7)+
qed



text \<open>
  Claim C9. Link extraction fails exactly for a display macro whose first argument is
  not a quoted string and for a click macro whose first argument is not a bracketed
  link and which has more than two arguments or a last argument that is not a quoted
  string. The source also fails, with a \<open>ValueError\<close> at \<open>name, *args = ...\<close>, on a
  macro without any token, such as \<open><<>>\<close>, which is neither a display nor a click
  macro. For every other macro \<open>find_links_in_macro_fails_iff\<close> is the claim.
\<close>

theorem empty_macro_raises:
  "re_macro_arg_findall [] = []
   \<and> find_links_in_macro ''<<>>'' = Inl ValueError
   \<and> split_body ''<<>>'' = ([''<<>>''], [])
   \<and> find_links [''<<>>''] = Inl ValueError"
proof (intro conjI)
  show "re_macro_arg_findall [] = []" by simp
  show "find_links_in_macro ''<<>>'' = Inl ValueError" by code_simp
  show "split_body ''<<>>'' = ([''<<>>''], [])" by code_simp
  show "find_links [''<<>>''] = Inl ValueError" by code_simp
qed

end
